theory Spec2Isabelle
  imports Main
begin

section \<open>SFTP server session: status taxonomy\<close>

text \<open>
  Modelled from the spec: the enumerations of status codes and packet types (module
  sftp-enums, whose code is not among the sources); the constructors are the names the
  session code uses. \<open>HARDLINK\<close> is the type of the hardlink extension and
  \<open>OtherType\<close> any type tag the session code does not name.
\<close>

datatype SftpStatusCode =
  OK | EOF | NO_SUCH_FILE | PERMISSION_DENIED | FAILURE | BAD_MESSAGE
  | NO_CONNECTION | CONNECTION_LOST | OP_UNSUPPORTED

datatype SftpPacketType =
  INIT | VERSION | OPEN | CLOSE | READ | WRITE | LSTAT | FSTAT | SETSTAT | FSETSTAT
  | OPENDIR | READDIR | REMOVE | MKDIR | RMDIR | REALPATH | STAT | RENAME | READLINK
  | SYMLINK | STATUS | HANDLE | DATA | NAME | ATTRS | HARDLINK | OtherType nat

text \<open>
  A backend error (NodeJS.ErrnoException): \<open>errno\<close> may be undefined (\<open>None\<close>),
  \<open>isPublic\<close> holds when the property is exactly \<open>true\<close>.
\<close>

record ErrnoException =
  err_errno :: "int option"
  err_message :: string
  err_isPublic :: bool

text \<open>\<open>x | 0\<close> on an integer: the value as a signed 32-bit integer; undefined gives 0.\<close>

definition to_int32 :: "int \<Rightarrow> int" where
  "to_int32 n = (n + 2147483648) mod 4294967296 - 2147483648"

definition errno_or_0 :: "int option \<Rightarrow> int" where
  "errno_or_0 e = (case e of None \<Rightarrow> 0 | Some n \<Rightarrow> to_int32 n)"

text \<open>Decimal printing of a number, as string concatenation does in the source.\<close>

definition digit_char :: "nat \<Rightarrow> char" where
  "digit_char d = char_of (48 + d)"

fun string_of_nat :: "nat \<Rightarrow> string" where
  "string_of_nat n =
     (if n < 10 then [digit_char n] else string_of_nat (n div 10) @ [digit_char (n mod 10)])"

definition string_of_int :: "int \<Rightarrow> string" where
  "string_of_int i = (if i < 0 then CHR ''-'' # string_of_nat (nat (- i)) else string_of_nat (nat i))"

record SftpException =
  exc_message :: string
  exc_code :: SftpStatusCode
  exc_errno :: int

text \<open>
  The constructor of SftpException: the code starts as FAILURE, the switch on
  \<open>err.errno | 0\<close> picks the message and, for some values, another code.
\<close>

definition SftpException :: "ErrnoException \<Rightarrow> SftpException" where
  "SftpException err =
    (let errno = errno_or_0 (err_errno err);
         mc =
          (if errno = 1 then (''End of file'', EOF)
           else if errno = 3 then (''Permission denied'', PERMISSION_DENIED)
           else if errno = 4 then (''Try again'', FAILURE)
           else if errno = 9 then (''Bad file number'', FAILURE)
           else if errno = 10 then (''Device or resource busy'', FAILURE)
           else if errno = 18 then (''Invalid argument'', FAILURE)
           else if errno = 20 then (''Too many open files'', FAILURE)
           else if errno = 24 then (''File table overflow'', FAILURE)
           else if errno = 25 then (''No buffer space available'', FAILURE)
           else if errno = 26 then (''Out of memory'', FAILURE)
           else if errno = 27 then (''Not a directory'', FAILURE)
           else if errno = 28 then (''Is a directory'', FAILURE)
           else if errno = - 2 \<or> errno = - 4058 \<or> errno = 34
             then (''No such file or directory'', NO_SUCH_FILE)
           else if errno = 35 then (''Function not implemented'', OP_UNSUPPORTED)
           else if errno = 47 then (''File exists'', FAILURE)
           else if errno = 49 then (''File name too long'', FAILURE)
           else if errno = 50 then (''Operation not permitted'', FAILURE)
           else if errno = 51 then (''Too many symbolic links encountered'', FAILURE)
           else if errno = 52 then (''Cross-device link'', FAILURE)
           else if errno = 53 then (''Directory not empty'', FAILURE)
           else if errno = 54 then (''No space left on device'', FAILURE)
           else if errno = 55 then (''I/O error'', FAILURE)
           else if errno = 56 then (''Read-only file system'', FAILURE)
           else if errno = 57 then (''No such device'', NO_SUCH_FILE)
           else if errno = 58 then (''Illegal seek'', FAILURE)
           else if errno = 59 then (''Operation canceled'', FAILURE)
           else if err_isPublic err then (err_message err, FAILURE)
           else (''Unknown error ('' @ string_of_int errno @ '')'', FAILURE))
     in \<lparr> exc_message = fst mc, exc_code = snd mc, exc_errno = errno \<rparr>)"

section \<open>Packets, requests and the response writer\<close>

text \<open>
  Modelled from the spec: the attribute block (SftpAttributes, whose code is not among
  the sources): a flags word, then the fields whose flag is set: size (64 bits), uid
  and gid (32 bits each), permissions (32 bits), atime and mtime (32 bits each). The
  stats of the backend are taken in the same form.
\<close>

datatype SftpAttributes = SftpAttributes
  (attr_size: "int option") (attr_ids: "(int \<times> int) option")
  (attr_permissions: "int option") (attr_times: "(int \<times> int) option")

definition attr_bytes :: "SftpAttributes \<Rightarrow> nat" where
  "attr_bytes a =
     4 + (case attr_size a of None \<Rightarrow> 0 | Some _ \<Rightarrow> 8)
       + (case attr_ids a of None \<Rightarrow> 0 | Some _ \<Rightarrow> 8)
       + (case attr_permissions a of None \<Rightarrow> 0 | Some _ \<Rightarrow> 4)
       + (case attr_times a of None \<Rightarrow> 0 | Some _ \<Rightarrow> 8)"

text \<open>
  What a writer call puts into the buffer: a 32-bit integer, a status code (a 32-bit
  integer), a string (32-bit length, then the bytes), an attribute block, or a region
  that is skipped and filled by the backend.
\<close>

datatype wfield =
  WInt32 int | WCode SftpStatusCode | WString string | WAttrs SftpAttributes | WSkip nat

fun field_bytes :: "wfield \<Rightarrow> nat" where
  "field_bytes (WInt32 _) = 4"
| "field_bytes (WCode _) = 4"
| "field_bytes (WString str) = 4 + length str"
| "field_bytes (WAttrs a) = attr_bytes a"
| "field_bytes (WSkip n) = n"

text \<open>
  SftpResponse: the packet writer with the field \<open>handleInfo\<close> (a reference into the
  store of handle records, \<open>None\<close> while undefined). \<open>rs_body\<close> is what has been written
  after the header since the last \<open>start()\<close>.
\<close>

record SftpResponse =
  rs_type :: "SftpPacketType option"
  rs_id :: "int option"
  rs_handleInfo :: "nat option"
  rs_position :: nat
  rs_body :: "wfield list"

definition new_SftpResponse :: SftpResponse where
  "new_SftpResponse =
     \<lparr> rs_type = None, rs_id = None, rs_handleInfo = None, rs_position = 0, rs_body = [] \<rparr>"

text \<open>The packet that \<open>finish()\<close> hands to the channel.\<close>

datatype packet = Packet
  (pk_type: "SftpPacketType option") (pk_id: "int option") (pk_length: nat)
  (pk_body: "wfield list")

text \<open>
  Modelled from the spec: the packet writer (SftpPacketWriter), whose code is not among
  the sources. It has a fixed capacity, 34000 bytes for a response; \<open>start()\<close> puts the
  position behind the header: the length (4 bytes), the type tag (1 byte) and, for every
  type except INIT and VERSION, the request id (4 bytes); an id that is null is
  written as 0. \<open>check(n)\<close> asserts that \<open>n\<close> more bytes fit; \<open>finish()\<close> returns the
  bytes written.
  Every write asserts the capacity first. Between two \<open>start()\<close> the position only
  grows, so a run of writes raises exactly when the position they would reach lies
  beyond the capacity: the model writes, and \<open>fits\<close> is tested where the source would
  have raised.
\<close>

definition capacity :: nat where
  "capacity = 34000"

definition carries_id :: "SftpPacketType option \<Rightarrow> bool" where
  "carries_id t = (t \<noteq> Some INIT \<and> t \<noteq> Some VERSION)"

definition id_field :: "int option \<Rightarrow> int" where
  "id_field i = (case i of None \<Rightarrow> 0 | Some n \<Rightarrow> n)"

definition start :: "SftpResponse \<Rightarrow> SftpResponse" where
  "start r = r\<lparr> rs_position := 5 + (if carries_id (rs_type r) then 4 else 0), rs_body := [] \<rparr>"

definition put :: "wfield \<Rightarrow> SftpResponse \<Rightarrow> SftpResponse" where
  "put f r = r\<lparr> rs_position := rs_position r + field_bytes f, rs_body := rs_body r @ [f] \<rparr>"

definition writeInt32 :: "int \<Rightarrow> SftpResponse \<Rightarrow> SftpResponse" where
  "writeInt32 v = put (WInt32 v)"

definition writeString :: "string \<Rightarrow> SftpResponse \<Rightarrow> SftpResponse" where
  "writeString str = put (WString str)"

definition skip :: "nat \<Rightarrow> SftpResponse \<Rightarrow> SftpResponse" where
  "skip n = put (WSkip n)"

definition check :: "int \<Rightarrow> SftpResponse \<Rightarrow> bool" where
  "check n r = (n \<le> int capacity - int (rs_position r))"

definition fits :: "SftpResponse \<Rightarrow> bool" where
  "fits r = (rs_position r \<le> capacity)"

definition finish :: "SftpResponse \<Rightarrow> packet" where
  "finish r =
     Packet (rs_type r) (if carries_id (rs_type r) then Some (id_field (rs_id r)) else None)
       (rs_position r) (rs_body r)"

text \<open>
  Modelled from the spec: SftpStatus.write and SftpStatus.writeSuccess. A status response
  has type STATUS and carries the code, the message and a language tag (empty).
\<close>

definition SftpStatus_write :: "SftpResponse \<Rightarrow> SftpStatusCode \<Rightarrow> string \<Rightarrow> SftpResponse" where
  "SftpStatus_write r code message =
     writeString [] (writeString message (put (WCode code) (start (r\<lparr> rs_type := Some STATUS \<rparr>))))"

definition SftpStatus_writeSuccess :: "SftpResponse \<Rightarrow> SftpResponse" where
  "SftpStatus_writeSuccess r = SftpStatus_write r OK ''OK''"

text \<open>
  Modelled from the spec: a request as the reader (SftpPacketReader, whose code is not
  among the sources) presents it: type, id (null for INIT and VERSION, which carry
  none) and length, and the payload
  fields the handlers read. \<open>rq_hlen\<close> and \<open>rq_h\<close> are the two 32-bit integers
  that \<open>readHandleInfo\<close> reads; \<open>rq_modes\<close> is what SftpFlags.fromNumber returns for
  the pflags of an OPEN; \<open>rq_decodes\<close> says that the remaining payload can be read as
  the type requires (the reader raises otherwise).
\<close>

record SftpRequest =
  rq_type :: SftpPacketType
  rq_id :: "int option"
  rq_length :: nat
  rq_decodes :: bool
  rq_hlen :: int
  rq_h :: int
  rq_path :: string
  rq_path2 :: string
  rq_modes :: "string list"
  rq_attrs :: SftpAttributes
  rq_position :: int
  rq_count :: int

text \<open>
  A directory item. An empty long name is absent (falsy); \<open>item_synthname\<close> is the long
  form that FileUtil.toString builds from the file name and the attributes.
\<close>

datatype IItem = IItem
  (item_filename: string) (item_longname: string) (item_synthname: string)
  (item_stats: SftpAttributes)

section \<open>The filesystem backend\<close>

text \<open>
  A backend call is asynchronous: the session hands over the arguments and a callback
  and returns. The calls in flight are kept with their callbacks; a callback is the
  closure of the source, with the variables it captures. The buffer that \<open>read\<close> and
  \<open>write\<close> are given belongs to a response writer or to a request reader and is named
  by its owner; the arguments after it are the offset into it, the count and the file
  position.
\<close>

datatype buffer = ResponseBuffer SftpResponse | RequestBuffer SftpRequest

datatype fs_call =
  FsOpen string "string option" SftpAttributes
  | FsClose "nat option"
  | FsRead "nat option" buffer nat int int
  | FsWrite "nat option" buffer nat int int
  | FsLstat string
  | FsFstat "nat option"
  | FsSetstat string SftpAttributes
  | FsFsetstat "nat option" SftpAttributes
  | FsOpendir string
  | FsReaddir "nat option"
  | FsUnlink string
  | FsMkdir string SftpAttributes
  | FsRmdir string
  | FsRealpath string
  | FsStat string
  | FsRename string string
  | FsReadlink string
  | FsSymlink string string
  | FsLink string string

datatype callback =
  K_open SftpResponse nat string "string list" SftpAttributes
  | K_close_retry SftpResponse nat string "string list" SftpAttributes
  | K_sendSuccess SftpResponse
  | K_sendAttribs SftpResponse
  | K_sendPath SftpResponse
  | K_read SftpResponse
  | K_opendir SftpResponse nat
  | K_readdir SftpResponse nat nat
  | K_discard

text \<open>
  What the backend passes to a callback: the error (null on success) and the values;
  \<open>res_items\<close> is \<open>None\<close> for the sentinel \<open>false\<close> of readdir.
\<close>

datatype fs_result = FsResult
  (res_err: "ErrnoException option") (res_handle: "nat option") (res_bytesRead: nat)
  (res_stats: SftpAttributes) (res_items: "IItem list option") (res_path: string)

section \<open>Handle records and the session\<close>

text \<open>
  A queued task is the closure pushed by \<open>_process\<close>; it captures the request, the
  response and the handle record.
\<close>

datatype task = Task (t_request: SftpRequest) (t_response: SftpResponse) (t_handleInfo: nat)

record SftpHandleInfo =
  hi_h :: int
  hi_handle :: "nat option"
  hi_items :: "IItem list option"
  hi_locked :: bool
  hi_tasks :: "task list"

definition new_SftpHandleInfo :: "int \<Rightarrow> SftpHandleInfo" where
  "new_SftpHandleInfo h =
     \<lparr> hi_h = h, hi_handle = None, hi_items = None, hi_locked = False, hi_tasks = [] \<rparr>"

text \<open>
  The session. Handle records are objects shared between the table, the responses, the
  queued tasks and the callbacks, so they live in a store and are named by their index
  in it; \<open>ss_handles\<close> is the array \<open>_handles\<close>, from an index to a record or
  undefined. \<open>ss_fs\<close> says that the filesystem reference is held. The channel is what it
  was sent and how often \<open>close()\<close> was called on it.
\<close>

record session =
  ss_fs :: bool
  ss_handles :: "int \<Rightarrow> nat option"
  ss_nextHandle :: int
  ss_store :: "SftpHandleInfo list"
  ss_sent :: "packet list"
  ss_closed :: nat
  ss_pending :: "(fs_call \<times> callback) list"

definition MAX_HANDLE_COUNT :: int where
  "MAX_HANDLE_COUNT = 512"

definition new_session :: session where
  "new_session =
     \<lparr> ss_fs = True, ss_handles = (\<lambda>_. None), ss_nextHandle = 1, ss_store = [],
       ss_sent = [], ss_closed = 0, ss_pending = [] \<rparr>"

definition info :: "session \<Rightarrow> nat \<Rightarrow> SftpHandleInfo" where
  "info s r = ss_store s ! r"

definition update_info :: "nat \<Rightarrow> (SftpHandleInfo \<Rightarrow> SftpHandleInfo) \<Rightarrow> session \<Rightarrow> session" where
  "update_info r f s = s\<lparr> ss_store := (ss_store s)[r := f (ss_store s ! r)] \<rparr>"

definition channel_send :: "session \<Rightarrow> packet \<Rightarrow> session" where
  "channel_send s p = s\<lparr> ss_sent := ss_sent s @ [p] \<rparr>"

definition backend :: "fs_call \<Rightarrow> callback \<Rightarrow> session \<Rightarrow> session" where
  "backend c k s = s\<lparr> ss_pending := ss_pending s @ [(c, k)] \<rparr>"

text \<open>An exception leaves the state as it is at the throw.\<close>

datatype 'a attempt = Returned 'a | Threw 'a

section \<open>The session's operations\<close>

text \<open>
  \<open>readHandleInfo\<close>: a 4-byte handle, read as an index into the table; null when the
  length is not 4 or the slot holds no record.
\<close>

definition readHandleInfo :: "session \<Rightarrow> SftpRequest \<Rightarrow> nat option" where
  "readHandleInfo s request =
     (if rq_hlen request \<noteq> 4 then None else ss_handles s (rq_h request))"

text \<open>
  \<open>createHandleInfo\<close>: the loop runs at most MAX_HANDLE_COUNT times, from the cursor
  \<open>nextHandle\<close>; the last argument of the scan counts the iterations left. A free slot
  gets a new record and the cursor moves to the slot after it; the result is null when
  the loop ends. The cursor is never negative (it starts at 1 and is set to values from
  1 to MAX_HANDLE_COUNT only), so the remainder \<open>%\<close> of the source is \<open>mod\<close>.
\<close>

fun createHandleInfo_scan :: "session \<Rightarrow> int \<Rightarrow> nat \<Rightarrow> nat option \<times> session" where
  "createHandleInfo_scan s h 0 = (None, s)"
| "createHandleInfo_scan s h (Suc n) =
     (let next = (h mod MAX_HANDLE_COUNT) + 1 in
      case ss_handles s h of
        None \<Rightarrow>
          (let hr = length (ss_store s) in
           (Some hr,
            s\<lparr> ss_store := ss_store s @ [new_SftpHandleInfo h],
               ss_handles := (ss_handles s)(h := Some hr),
               ss_nextHandle := next \<rparr>))
      | Some _ \<Rightarrow> createHandleInfo_scan s next n)"

definition createHandleInfo :: "session \<Rightarrow> nat option \<times> session" where
  "createHandleInfo s = createHandleInfo_scan s (ss_nextHandle s) (nat MAX_HANDLE_COUNT)"

text \<open>
  \<open>deleteHandleInfo\<close>: nothing for a record that is already a tombstone; otherwise the
  record becomes one (\<open>h = -1\<close>) and its slot is deleted; "Handle not found" is thrown
  when the slot holds no record.
\<close>

definition deleteHandleInfo :: "session \<Rightarrow> nat \<Rightarrow> session attempt" where
  "deleteHandleInfo s hr =
     (let h = hi_h (info s hr) in
      if h < 0 then Returned s
      else
        (let s1 = update_info hr (\<lambda>i. i\<lparr> hi_h := - 1 \<rparr>) s in
         case ss_handles s1 h of
           None \<Rightarrow> Threw s1
         | Some _ \<Rightarrow> Returned (s1\<lparr> ss_handles := (ss_handles s1)(h := None) \<rparr>)))"

definition writeItem :: "SftpResponse \<Rightarrow> IItem \<Rightarrow> SftpResponse" where
  "writeItem response item =
     (let attr = item_stats item;
          filename = item_filename item;
          longname = (if item_longname item \<noteq> [] then item_longname item else item_synthname item)
      in put (WAttrs attr) (writeString longname (writeString filename response)))"

text \<open>
  What the synchronous part of a handler ends with: a response is sent (\<open>Reply\<close>), it
  returns with a backend call under way (\<open>Proceed\<close>), or an exception is thrown
  (\<open>Raise\<close>).
\<close>

datatype action = Reply session SftpResponse | Proceed session | Raise session

text \<open>
  READDIR. The \<open>while\<close> loop of \<open>next\<close> writes an item, counts it, and then compares
  the position with the budget 0x7000 = 28672. It ends with the budget exceeded (the
  response, the count and the items not yet taken from the list), with the list empty,
  or with the writer's exception.
\<close>

datatype items_loop = Overflowed | Exceeded SftpResponse nat "IItem list" | Drained SftpResponse nat

fun write_items :: "SftpResponse \<Rightarrow> nat \<Rightarrow> IItem list \<Rightarrow> items_loop" where
  "write_items response count [] = Drained response count"
| "write_items response count (item # list) =
     (let r = writeItem response item in
      if \<not> fits r then Overflowed
      else if rs_position r > 28672 then Exceeded r (Suc count) list
      else write_items r (Suc count) list)"

text \<open>
  \<open>done\<close>: the response that is sent, an EOF status when nothing was written, else the
  NAME packet with the count written over the placeholder, the first field of the body.
\<close>

definition readdir_done :: "SftpResponse \<Rightarrow> nat \<Rightarrow> SftpResponse" where
  "readdir_done response count =
     (if count = 0 then SftpStatus_write response EOF ''EOF''
      else response\<lparr> rs_body := (rs_body response)[0 := WInt32 (int count)] \<rparr>)"

definition readdir :: "session \<Rightarrow> SftpResponse \<Rightarrow> nat \<Rightarrow> nat \<Rightarrow> session" where
  "readdir s response hr count =
     backend (FsReaddir (hi_handle (info s hr))) (K_readdir response hr count) s"

definition readdir_next ::
  "session \<Rightarrow> SftpResponse \<Rightarrow> nat \<Rightarrow> nat \<Rightarrow> IItem list option \<Rightarrow> action" where
  "readdir_next s response hr count items =
     (case items of
        None \<Rightarrow> Reply s (readdir_done response count)
      | Some list \<Rightarrow>
          (case write_items response count list of
             Overflowed \<Rightarrow> Raise s
           | Exceeded r c rest \<Rightarrow>
               Reply (update_info hr (\<lambda>i. i\<lparr> hi_items := Some rest \<rparr>) s) (readdir_done r c)
           | Drained r c \<Rightarrow> Proceed (readdir s r hr c)))"

text \<open>
  OPEN. \<open>openFile\<close> takes the first mode off the list (undefined when the list is empty)
  and calls the backend; its callback holds the modes that are left.
\<close>

definition openFile ::
  "session \<Rightarrow> SftpResponse \<Rightarrow> nat \<Rightarrow> string \<Rightarrow> string list \<Rightarrow> SftpAttributes \<Rightarrow> session" where
  "openFile s response hr path modes attrs =
     (case modes of
        [] \<Rightarrow> backend (FsOpen path None attrs) (K_open response hr path [] attrs) s
      | mode # rest \<Rightarrow> backend (FsOpen path (Some mode) attrs) (K_open response hr path rest attrs) s)"

text \<open>
  The body of the \<open>try\<close> in \<open>processRequest\<close>, up to the point where the handler
  returns. A handler for a handle-bound type dereferences \<open>handleInfo\<close>; on null that
  is an exception. In WRITE the data starts at the reader's position behind the header,
  the handle, the offset and the count: 29.
\<close>

definition processRequest_try ::
  "session \<Rightarrow> SftpRequest \<Rightarrow> SftpResponse \<Rightarrow> nat option \<Rightarrow> action" where
  "processRequest_try s request response handleInfo =
    (if rq_length request > 66000
       then Reply s (SftpStatus_write response BAD_MESSAGE ''Packet too long'')
     else case rq_type request of
       OPEN \<Rightarrow>
        (if \<not> rq_decodes request then Raise s
         else if rq_modes request = []
           then Reply s (SftpStatus_write response FAILURE ''Unsupported flags'')
         else case createHandleInfo s of
           (None, s') \<Rightarrow> Reply s' (SftpStatus_write response FAILURE ''Too many open handles'')
         | (Some hr, s') \<Rightarrow>
             Proceed (openFile s' response hr (rq_path request) (rq_modes request) (rq_attrs request)))
     | CLOSE \<Rightarrow>
        (case handleInfo of
           None \<Rightarrow> Raise s
         | Some hr \<Rightarrow>
            (case deleteHandleInfo s hr of
               Threw s' \<Rightarrow> Raise s'
             | Returned s' \<Rightarrow>
                 Proceed (backend (FsClose (hi_handle (info s' hr))) (K_sendSuccess response) s')))
     | READ \<Rightarrow>
        (if \<not> rq_decodes request then Raise s
         else
          (let count = (if rq_count request > 32768 then 32768 else rq_count request);
               r = start (response\<lparr> rs_type := Some DATA \<rparr>);
               offset = rs_position r + 4
           in if \<not> check (4 + count) r then Raise s
              else case handleInfo of
                None \<Rightarrow> Raise s
              | Some hr \<Rightarrow>
                  Proceed (backend (FsRead (hi_handle (info s hr)) (ResponseBuffer r) offset count
                             (rq_position request))
                    (K_read r) s)))
     | WRITE \<Rightarrow>
        (if \<not> rq_decodes request then Raise s
         else case handleInfo of
           None \<Rightarrow> Raise s
         | Some hr \<Rightarrow>
             Proceed (backend (FsWrite (hi_handle (info s hr)) (RequestBuffer request) 29
                        (rq_count request) (rq_position request))
               (K_sendSuccess response) s))
     | LSTAT \<Rightarrow>
        (if \<not> rq_decodes request then Raise s
         else Proceed (backend (FsLstat (rq_path request)) (K_sendAttribs response) s))
     | FSTAT \<Rightarrow>
        (case handleInfo of
           None \<Rightarrow> Raise s
         | Some hr \<Rightarrow> Proceed (backend (FsFstat (hi_handle (info s hr))) (K_sendAttribs response) s))
     | SETSTAT \<Rightarrow>
        (if \<not> rq_decodes request then Raise s
         else Proceed (backend (FsSetstat (rq_path request) (rq_attrs request)) (K_sendSuccess response) s))
     | FSETSTAT \<Rightarrow>
        (if \<not> rq_decodes request then Raise s
         else case handleInfo of
           None \<Rightarrow> Raise s
         | Some hr \<Rightarrow>
             Proceed (backend (FsFsetstat (hi_handle (info s hr)) (rq_attrs request))
               (K_sendSuccess response) s))
     | OPENDIR \<Rightarrow>
        (if \<not> rq_decodes request then Raise s
         else case createHandleInfo s of
           (None, s') \<Rightarrow> Reply s' (SftpStatus_write response FAILURE ''Too many open handles'')
         | (Some hr, s') \<Rightarrow>
             Proceed (backend (FsOpendir (rq_path request)) (K_opendir response hr) s'))
     | READDIR \<Rightarrow>
        (let r = writeInt32 0 (start (response\<lparr> rs_type := Some NAME \<rparr>)) in
         case handleInfo of
           None \<Rightarrow> Raise s
         | Some hr \<Rightarrow>
            (case hi_items (info s hr) of
               None \<Rightarrow> Proceed (readdir s r hr 0)
             | Some previous \<Rightarrow>
                 if previous \<noteq> []
                   then readdir_next (update_info hr (\<lambda>i. i\<lparr> hi_items := Some [] \<rparr>) s)
                          r hr 0 (Some previous)
                 else Proceed (readdir s r hr 0)))
     | REMOVE \<Rightarrow>
        (if \<not> rq_decodes request then Raise s
         else Proceed (backend (FsUnlink (rq_path request)) (K_sendSuccess response) s))
     | MKDIR \<Rightarrow>
        (if \<not> rq_decodes request then Raise s
         else Proceed (backend (FsMkdir (rq_path request) (rq_attrs request)) (K_sendSuccess response) s))
     | RMDIR \<Rightarrow>
        (if \<not> rq_decodes request then Raise s
         else Proceed (backend (FsRmdir (rq_path request)) (K_sendSuccess response) s))
     | REALPATH \<Rightarrow>
        (if \<not> rq_decodes request then Raise s
         else Proceed (backend (FsRealpath (rq_path request)) (K_sendPath response) s))
     | STAT \<Rightarrow>
        (if \<not> rq_decodes request then Raise s
         else Proceed (backend (FsStat (rq_path request)) (K_sendAttribs response) s))
     | RENAME \<Rightarrow>
        (if \<not> rq_decodes request then Raise s
         else Proceed (backend (FsRename (rq_path request) (rq_path2 request)) (K_sendSuccess response) s))
     | READLINK \<Rightarrow>
        (if \<not> rq_decodes request then Raise s
         else Proceed (backend (FsReadlink (rq_path request)) (K_sendPath response) s))
     | SYMLINK \<Rightarrow>
        (if \<not> rq_decodes request then Raise s
         else Proceed (backend (FsSymlink (rq_path2 request) (rq_path request)) (K_sendSuccess response) s))
     | HARDLINK \<Rightarrow>
        (if \<not> rq_decodes request then Raise s
         else Proceed (backend (FsLink (rq_path request) (rq_path2 request)) (K_sendSuccess response) s))
     | _ \<Rightarrow> Reply s (SftpStatus_write response OP_UNSUPPORTED ''Not supported''))"

text \<open>The number of queued tasks, over all handle records.\<close>

definition queued :: "session \<Rightarrow> nat" where
  "queued s = sum_list (map (\<lambda>i. length (hi_tasks i)) (ss_store s))"

text \<open>
  \<open>send\<close>, \<open>processNext\<close> and \<open>processRequest\<close> call each other: sending the response
  of a handle-bound request starts the next task of the handle, a task runs
  \<open>processRequest\<close> (or rejects the request when the record is a tombstone), and
  \<open>processRequest\<close> sends a response when the handler replies at once or throws.
  A reference to a handle record is an index of the store; \<open>processNext\<close> does nothing
  for an index outside it, which no reference of the source is.
\<close>

function send :: "session \<Rightarrow> SftpResponse \<Rightarrow> session"
  and processNext :: "session \<Rightarrow> nat \<Rightarrow> session"
  and processRequest :: "session \<Rightarrow> SftpRequest \<Rightarrow> SftpResponse \<Rightarrow> nat option \<Rightarrow> session"
where
  "send s response =
     (let s1 = channel_send s (finish response) in
      case rs_handleInfo response of
        None \<Rightarrow> s1
      | Some hr \<Rightarrow> processNext s1 hr)"
| "processNext s hr =
     (if hr < length (ss_store s) then
        (case hi_tasks (info s hr) of
           [] \<Rightarrow> update_info hr (\<lambda>i. i\<lparr> hi_locked := False \<rparr>) s
         | t # ts \<Rightarrow>
            (let s1 = update_info hr (\<lambda>i. i\<lparr> hi_tasks := ts \<rparr>) s in
             if hi_h (info s1 (t_handleInfo t)) < 0
               then send s1 (SftpStatus_write (t_response t) FAILURE ''Invalid handle'')
             else processRequest s1 (t_request t) (t_response t) (Some (t_handleInfo t))))
      else s)"
| "processRequest s request response handleInfo =
     (if \<not> ss_fs s then s
      else
        (case processRequest_try s request response handleInfo of
           Reply s' r \<Rightarrow> send s' r
         | Proceed s' \<Rightarrow> s'
         | Raise s' \<Rightarrow> send s' (SftpStatus_write response FAILURE ''Internal server error'')))"
  by pat_completeness auto

termination
proof -
  have upd: "queued (update_info hr g s) = queued s"
    if "\<And>i. hi_tasks (g i) = hi_tasks i" for hr g s
  proof (cases "hr < length (ss_store s)")
    case True
    have "map (\<lambda>i. length (hi_tasks i)) ((ss_store s)[hr := g (ss_store s ! hr)])
        = (map (\<lambda>i. length (hi_tasks i)) (ss_store s))[hr := length (hi_tasks (ss_store s ! hr))]"
      by (simp add: map_update that)
    also have "\<dots> = map (\<lambda>i. length (hi_tasks i)) (ss_store s)"
      using True by (metis list_update_id nth_map)
    finally show ?thesis by (simp add: queued_def update_info_def)
  next
    case False
    then show ?thesis by (simp add: queued_def update_info_def list_update_beyond)
  qed
  have pop: "queued (update_info hr (hi_tasks_update (\<lambda>_. ts)) s) < queued s"
    if "hr < length (ss_store s)" and "hi_tasks (info s hr) = t # ts" for hr ts t s
  proof -
    let ?f = "\<lambda>i. length (hi_tasks i)"
    let ?xs = "ss_store s"
    have a: "?xs = take hr ?xs @ ?xs ! hr # drop (Suc hr) ?xs"
      using that(1) by (rule id_take_nth_drop)
    have b: "?xs[hr := hi_tasks_update (\<lambda>_. ts) (?xs ! hr)]
        = take hr ?xs @ hi_tasks_update (\<lambda>_. ts) (?xs ! hr) # drop (Suc hr) ?xs"
      using that(1) by (rule upd_conv_take_nth_drop)
    have "sum_list (map ?f (?xs[hr := hi_tasks_update (\<lambda>_. ts) (?xs ! hr)]))
        = sum_list (map ?f (take hr ?xs)) + length ts + sum_list (map ?f (drop (Suc hr) ?xs))"
      by (subst b) simp
    moreover have "sum_list (map ?f ?xs)
        = sum_list (map ?f (take hr ?xs)) + Suc (length ts) + sum_list (map ?f (drop (Suc hr) ?xs))"
      using that(2) by (subst a) (simp add: info_def)
    ultimately show ?thesis by (simp add: queued_def update_info_def)
  qed
  have scan: "queued (snd (createHandleInfo_scan s h n)) = queued s" for s h n
    by (induction n arbitrary: s h) (simp_all add: Let_def queued_def new_SftpHandleInfo_def split: option.split)
  have del: "queued s' = queued s"
    if "deleteHandleInfo s hr = Returned s' \<or> deleteHandleInfo s hr = Threw s'" for s hr s'
  proof -
    have "queued (update_info hr (\<lambda>i. i\<lparr> hi_h := - 1 \<rparr>) s) = queued s"
      by (rule upd) simp
    then show ?thesis
      using that by (auto simp: deleteHandleInfo_def Let_def queued_def split: if_splits option.splits)
  qed
  have nxt: "queued s' = queued s"
    if "readdir_next s r hr c items = Reply s' r' \<or> readdir_next s r hr c items = Raise s'"
    for s r hr c items s' r'
  proof -
    have "queued (update_info hr (\<lambda>i. i\<lparr> hi_items := Some rest \<rparr>) s) = queued s" for rest
      by (rule upd) simp
    then show ?thesis
      using that by (auto simp: readdir_next_def split: option.splits items_loop.splits)
  qed
  have body: "queued s' = queued s"
    if "processRequest_try s rq rs hi = Reply s' r' \<or> processRequest_try s rq rs hi = Raise s'"
    for s rq rs hi s' r'
  proof -
    have items: "queued (update_info hr (\<lambda>i. i\<lparr> hi_items := Some [] \<rparr>) s) = queued s" for hr
      by (rule upd) simp
    have cr: "queued (snd (createHandleInfo s)) = queued s"
      by (simp add: createHandleInfo_def scan)
    show ?thesis
    proof (cases "rq_length rq > 66000")
      case True
      with that show ?thesis by (simp add: processRequest_try_def)
    next
      case False
      show ?thesis
      proof (cases "rq_type rq")
        case OPEN
        with that False cr show ?thesis
          by (auto simp: processRequest_try_def split: if_splits prod.splits option.splits)
      next
        case CLOSE
        with that False del show ?thesis
          by (auto simp: processRequest_try_def split: if_splits option.splits attempt.splits)
      next
        case OPENDIR
        with that False cr show ?thesis
          by (auto simp: processRequest_try_def split: if_splits prod.splits option.splits)
      next
        case READDIR
        with that False nxt items show ?thesis
          by (auto simp: processRequest_try_def Let_def split: if_splits option.splits)
      qed (use that False in \<open>auto simp: processRequest_try_def Let_def split: if_splits option.splits\<close>)
    qed
  qed
  show ?thesis
  proof (relation "inv_image (less_than <*lex*> less_than)
    (\<lambda>x. case x of
       Inl (s, r) \<Rightarrow> (queued s, 1::nat)
     | Inr (Inl (s, hr)) \<Rightarrow> (queued s, 0)
     | Inr (Inr (s, rq, rs, hi)) \<Rightarrow> (queued s, 2))", goal_cases)
    case 1
    show ?case by (intro wf_inv_image wf_lex_prod wf_less_than)
  next
    case 2
    then show ?case by (simp add: queued_def channel_send_def)
  next
    case 3
    then show ?case by (simp add: pop)
  next
    case 4
    then show ?case by (simp add: pop)
  next
    case (5 s request response handleInfo x11 x12)
    then show ?case using body[of s request response handleInfo x11 x12] by simp
  next
    case (6 s request response handleInfo x3)
    then show ?case using body[of s request response handleInfo x3] by simp
  qed
qed

text \<open>
  The senders. A status with one of the fixed messages of the source always fits the
  buffer, and so do HANDLE and ATTRS responses; the capacity is tested where a message
  or a path of the backend, data or directory items are written.
\<close>

definition sendStatus :: "session \<Rightarrow> SftpResponse \<Rightarrow> SftpStatusCode \<Rightarrow> string \<Rightarrow> session" where
  "sendStatus s response code message = send s (SftpStatus_write response code message)"

definition sendError :: "session \<Rightarrow> SftpResponse \<Rightarrow> ErrnoException \<Rightarrow> bool \<Rightarrow> session attempt" where
  "sendError s response err isFatal =
     (let (code, message) =
            (if \<not> isFatal
               then (let error = SftpException err in (exc_code error, exc_message error))
             else (FAILURE, ''Internal server error''));
          r = SftpStatus_write response code message
      in if fits r then Returned (send s r) else Threw s)"

text \<open>\<open>sendIfError\<close>: \<open>None\<close> when it returns false, else what sending the error did.\<close>

definition sendIfError ::
  "session \<Rightarrow> SftpResponse \<Rightarrow> ErrnoException option \<Rightarrow> session attempt option" where
  "sendIfError s response err =
     (case err of None \<Rightarrow> None | Some e \<Rightarrow> Some (sendError s response e False))"

definition sendSuccess :: "session \<Rightarrow> SftpResponse \<Rightarrow> ErrnoException option \<Rightarrow> session attempt" where
  "sendSuccess s response err =
     (case sendIfError s response err of
        Some a \<Rightarrow> a
      | None \<Rightarrow> Returned (send s (SftpStatus_writeSuccess response)))"

definition sendAttribs ::
  "session \<Rightarrow> SftpResponse \<Rightarrow> ErrnoException option \<Rightarrow> SftpAttributes \<Rightarrow> session attempt" where
  "sendAttribs s response err stats =
     (case sendIfError s response err of
        Some a \<Rightarrow> a
      | None \<Rightarrow> Returned (send s (put (WAttrs stats) (start (response\<lparr> rs_type := Some ATTRS \<rparr>)))))"

definition sendHandle :: "session \<Rightarrow> SftpResponse \<Rightarrow> nat \<Rightarrow> session" where
  "sendHandle s response hr =
     send s (writeInt32 (hi_h (info s hr)) (writeInt32 4 (start (response\<lparr> rs_type := Some HANDLE \<rparr>))))"

definition sendPath ::
  "session \<Rightarrow> SftpResponse \<Rightarrow> ErrnoException option \<Rightarrow> string \<Rightarrow> session attempt" where
  "sendPath s response err path =
     (case sendIfError s response err of
        Some a \<Rightarrow> a
      | None \<Rightarrow>
          (let r = writeInt32 0 (writeString [] (writeString path
                     (writeInt32 1 (start (response\<lparr> rs_type := Some NAME \<rparr>)))))
           in if fits r then Returned (send s r) else Threw s))"

text \<open>
  The callbacks the handlers pass to the backend, run with what the backend reports.
  An exception in a callback escapes to the backend.
\<close>

fun resume :: "session \<Rightarrow> callback \<Rightarrow> fs_result \<Rightarrow> session attempt" where
  "resume s (K_open response hr path modes attrs) res =
     (case sendIfError s response (res_err res) of
        Some (Threw s') \<Rightarrow> Threw s'
      | Some (Returned s') \<Rightarrow> deleteHandleInfo s' hr
      | None \<Rightarrow>
          if modes = []
            then Returned (sendHandle (update_info hr (\<lambda>i. i\<lparr> hi_handle := res_handle res \<rparr>) s) response hr)
          else Returned (backend (FsClose (res_handle res)) (K_close_retry response hr path modes attrs) s))"
| "resume s (K_close_retry response hr path modes attrs) res =
     (case sendIfError s response (res_err res) of
        Some (Threw s') \<Rightarrow> Threw s'
      | Some (Returned s') \<Rightarrow> deleteHandleInfo s' hr
      | None \<Rightarrow> Returned (openFile s response hr path modes attrs))"
| "resume s (K_sendSuccess response) res = sendSuccess s response (res_err res)"
| "resume s (K_sendAttribs response) res = sendAttribs s response (res_err res) (res_stats res)"
| "resume s (K_sendPath response) res = sendPath s response (res_err res) (res_path res)"
| "resume s (K_read response) res =
     (case sendIfError s response (res_err res) of
        Some a \<Rightarrow> a
      | None \<Rightarrow>
          if res_bytesRead res = 0 then Returned (sendStatus s response EOF ''EOF'')
          else
            (let r = skip (res_bytesRead res) (writeInt32 (int (res_bytesRead res)) response)
             in if fits r then Returned (send s r) else Threw s))"
| "resume s (K_opendir response hr) res =
     (case sendIfError s response (res_err res) of
        Some (Threw s') \<Rightarrow> Threw s'
      | Some (Returned s') \<Rightarrow> deleteHandleInfo s' hr
      | None \<Rightarrow>
          Returned (sendHandle (update_info hr (\<lambda>i. i\<lparr> hi_handle := res_handle res \<rparr>) s) response hr))"
| "resume s (K_readdir response hr count) res =
     (case sendIfError s response (res_err res) of
        Some a \<Rightarrow> a
      | None \<Rightarrow>
          (case readdir_next s response hr count (res_items res) of
             Reply s' r \<Rightarrow> Returned (send s' r)
           | Proceed s' \<Rightarrow> Returned s'
           | Raise s' \<Rightarrow> Threw s'))"
| "resume s K_discard res = Returned s"

text \<open>
  \<open>end\<close>: the channel is closed; when the filesystem is still held, every record of the
  table (the array has the indices 0 to MAX_HANDLE_COUNT) has its backend handle closed,
  with a callback that ignores the result, and the filesystem reference is deleted.
\<close>

definition end_session :: "session \<Rightarrow> session" where
  "end_session s =
     (let s1 = s\<lparr> ss_closed := Suc (ss_closed s) \<rparr> in
      if \<not> ss_fs s1 then s1
      else s1\<lparr> ss_pending := ss_pending s1 @
                  map (\<lambda>hr. (FsClose (hi_handle (info s1 hr)), K_discard))
                    (List.map_filter (ss_handles s1) [0..MAX_HANDLE_COUNT]),
               ss_fs := False \<rparr>)"

definition handle_bound :: "SftpPacketType \<Rightarrow> bool" where
  "handle_bound t =
     (t = CLOSE \<or> t = READ \<or> t = WRITE \<or> t = FSTAT \<or> t = FSETSTAT \<or> t = READDIR)"

text \<open>
  \<open>_process\<close>, for a request that the reader has accepted and whose leading fields
  (the version of an INIT, the handle of a handle-bound request) are there to be read.
  Logging is left out: it does not touch the session.
\<close>

definition process :: "session \<Rightarrow> SftpRequest \<Rightarrow> session" where
  "process s request =
    (let response = new_SftpResponse in
     if rq_type request = INIT
       then send s (writeInt32 3 (start (response\<lparr> rs_type := Some VERSION \<rparr>)))
     else
      (let response = response\<lparr> rs_id := rq_id request \<rparr> in
       if handle_bound (rq_type request) then
         (case readHandleInfo s request of
            None \<Rightarrow> sendStatus s response FAILURE ''Invalid handle''
          | Some hr \<Rightarrow>
             (let response = response\<lparr> rs_handleInfo := Some hr \<rparr> in
              if \<not> hi_locked (info s hr)
                then processRequest (update_info hr (\<lambda>i. i\<lparr> hi_locked := True \<rparr>) s)
                       request response (Some hr)
              else update_info hr (\<lambda>i. i\<lparr> hi_tasks := hi_tasks i @ [Task request response hr] \<rparr>) s))
       else processRequest s request response None))"

section \<open>Runs of a session\<close>

text \<open>
  What happens to a session: a message arrives, the backend completes one of the calls
  in flight (named by its place among them) and runs its callback, or the channel
  closes, which runs \<open>end\<close>.
\<close>

datatype event = Message SftpRequest | Completion nat fs_result | ChannelClose

definition complete :: "session \<Rightarrow> nat \<Rightarrow> fs_result \<Rightarrow> session attempt" where
  "complete s n res =
     (if n < length (ss_pending s)
        then resume (s\<lparr> ss_pending := take n (ss_pending s) @ drop (Suc n) (ss_pending s) \<rparr>)
               (snd (ss_pending s ! n)) res
      else Returned s)"

fun step :: "session \<Rightarrow> event \<Rightarrow> session" where
  "step s (Message request) = process s request"
| "step s (Completion n res) = (case complete s n res of Returned s' \<Rightarrow> s' | Threw s' \<Rightarrow> s')"
| "step s ChannelClose = end_session s"

fun run :: "session \<Rightarrow> event list \<Rightarrow> session" where
  "run s [] = s"
| "run s (e # es) = run (step s e) es"

text \<open>
  The handle record a backend call works for: the one attached to the response its
  callback holds. \<open>inflight\<close> counts the calls in flight for a record.
\<close>

fun callback_handleInfo :: "callback \<Rightarrow> nat option" where
  "callback_handleInfo (K_open response hr path modes attrs) = rs_handleInfo response"
| "callback_handleInfo (K_close_retry response hr path modes attrs) = rs_handleInfo response"
| "callback_handleInfo (K_sendSuccess response) = rs_handleInfo response"
| "callback_handleInfo (K_sendAttribs response) = rs_handleInfo response"
| "callback_handleInfo (K_sendPath response) = rs_handleInfo response"
| "callback_handleInfo (K_read response) = rs_handleInfo response"
| "callback_handleInfo (K_opendir response hr) = rs_handleInfo response"
| "callback_handleInfo (K_readdir response hr count) = rs_handleInfo response"
| "callback_handleInfo K_discard = None"

definition inflight :: "session \<Rightarrow> nat \<Rightarrow> nat" where
  "inflight s hr = length (filter (\<lambda>ck. callback_handleInfo (snd ck) = Some hr) (ss_pending s))"

declare send.simps [simp del] processNext.simps [simp del] processRequest.simps [simp del]


text \<open>Requests used as concrete inputs below.\<close>

definition plain_request :: "SftpPacketType \<Rightarrow> int \<Rightarrow> SftpRequest" where
  "plain_request t n =
     \<lparr> rq_type = t, rq_id = Some n, rq_length = 64, rq_decodes = True, rq_hlen = 4, rq_h = 1,
       rq_path = ''/a'', rq_path2 = ''/b'', rq_modes = [''r''],
       rq_attrs = SftpAttributes None None None None, rq_position = 0, rq_count = 4 \<rparr>"

definition ok_result :: fs_result where
  "ok_result = FsResult None (Some 7) 4 (SftpAttributes None None None None) None ''/a''"

definition init_request :: SftpRequest where
  "init_request = (plain_request INIT 0)\<lparr> rq_id := None \<rparr>"

text \<open>
  A session with one open file, handle 1: its record is locked by a READ whose backend
  call is in flight, and a second READ waits in the queue.
\<close>

definition busy_response :: "int \<Rightarrow> SftpResponse" where
  "busy_response n =
     \<lparr> rs_type = None, rs_id = Some n, rs_handleInfo = Some 0, rs_position = 0, rs_body = [] \<rparr>"

definition busy_session :: session where
  "busy_session =
     \<lparr> ss_fs = True, ss_handles = (\<lambda>_. None)(1 := Some 0), ss_nextHandle = 2,
       ss_store =
         [\<lparr> hi_h = 1, hi_handle = Some 7, hi_items = None, hi_locked = True,
            hi_tasks = [Task (plain_request READ 3) (busy_response 3) 0] \<rparr>],
       ss_sent = [Packet (Some HANDLE) (Some 1) 17 [WInt32 4, WInt32 1]], ss_closed = 0,
       ss_pending =
         [(FsRead (Some 7) (ResponseBuffer (start ((busy_response 2)\<lparr> rs_type := Some DATA \<rparr>))) 13 4 0,
           K_read (start ((busy_response 2)\<lparr> rs_type := Some DATA \<rparr>)))] \<rparr>"

text \<open>The same session with the record idle: unlocked, nothing queued, nothing in flight.\<close>

definition idle_session :: session where
  "idle_session =
     \<lparr> ss_fs = True, ss_handles = (\<lambda>_. None)(1 := Some 0), ss_nextHandle = 2,
       ss_store =
         [\<lparr> hi_h = 1, hi_handle = Some 7, hi_items = None, hi_locked = False, hi_tasks = [] \<rparr>],
       ss_sent = [Packet (Some HANDLE) (Some 1) 17 [WInt32 4, WInt32 1]], ss_closed = 0,
       ss_pending = [] \<rparr>"

definition open_request :: SftpRequest where
  "open_request = (plain_request OPEN 1)\<lparr> rq_modes := [''wx'', ''w''] \<rparr>"

definition open_response :: SftpResponse where
  "open_response = new_SftpResponse\<lparr> rs_id := Some 1 \<rparr>"

definition enoent_result :: fs_result where
  "enoent_result =
     FsResult (Some \<lparr> err_errno = Some 34, err_message = ''ENOENT, open'', err_isPublic = False \<rparr>)
       None 0 (SftpAttributes None None None None) None []"



definition oversize_read :: SftpRequest where
  "oversize_read = (plain_request READ 1)\<lparr> rq_length := 70000 \<rparr>"

text \<open>The bytes \<open>writeItem\<close> writes for an item: two strings and the attribute block.\<close>

definition item_bytes :: "IItem \<Rightarrow> nat" where
  "item_bytes item =
     (4 + length (item_filename item))
     + (4 + length (if item_longname item \<noteq> [] then item_longname item else item_synthname item))
     + attr_bytes (item_stats item)"

text \<open>
  An item whose file name has \<open>n\<close> bytes (it takes \<open>n + 13\<close> bytes in a packet), a
  session whose one record is locked by a request at work, and the response of a
  READDIR as its handler starts it.
\<close>

definition named_item :: "nat \<Rightarrow> IItem" where
  "named_item n = IItem (replicate n CHR ''x'') ''l'' [] (SftpAttributes None None None None)"

definition locked_session :: session where
  "locked_session = update_info 0 (\<lambda>i. i\<lparr> hi_locked := True \<rparr>) idle_session"

definition name_response :: SftpResponse where
  "name_response = writeInt32 0 (start ((busy_response 4)\<lparr> rs_type := Some NAME \<rparr>))"

definition items_result :: "IItem list \<Rightarrow> fs_result" where
  "items_result list = FsResult None None 0 (SftpAttributes None None None None) (Some list) []"

text \<open>The slot that a forward scan from \<open>h\<close> looks at in its \<open>k\<close>-th step (from 0).\<close>

definition slot_at :: "int \<Rightarrow> nat \<Rightarrow> int" where
  "slot_at h k = ((h - 1 + int k) mod MAX_HANDLE_COUNT) + 1"

section \<open>Serialization per handle: the invariant\<close>

text \<open>
  \<open>refs_ok\<close>: the references to handle records held by callbacks, queued tasks and the
  table are records of the store, and a task sits in the queue of the record that its
  response is attached to. \<open>serial\<close>: no record has more than one backend call in
  flight, and an unlocked record has none, and an empty queue. \<open>held\<close>: the record (if
  any) is locked and has no call in flight: the request that holds it is at work in
  the session.
\<close>

definition refs_ok :: "session \<Rightarrow> bool" where
  "refs_ok s =
     ((\<forall>ck \<in> set (ss_pending s). \<forall>hr. callback_handleInfo (snd ck) = Some hr \<longrightarrow> hr < length (ss_store s))
      \<and> (\<forall>hr < length (ss_store s). \<forall>t \<in> set (hi_tasks (info s hr)).
            rs_handleInfo (t_response t) = Some hr \<and> t_handleInfo t = hr)
      \<and> (\<forall>h hr. ss_handles s h = Some hr \<longrightarrow> hr < length (ss_store s)))"

definition serial :: "session \<Rightarrow> bool" where
  "serial s =
     (\<forall>hr < length (ss_store s).
        inflight s hr \<le> 1
        \<and> (\<not> hi_locked (info s hr) \<longrightarrow> inflight s hr = 0 \<and> hi_tasks (info s hr) = []))"

definition held :: "session \<Rightarrow> nat option \<Rightarrow> bool" where
  "held s x =
     (case x of
        None \<Rightarrow> True
      | Some hr \<Rightarrow> hr < length (ss_store s) \<and> hi_locked (info s hr) \<and> inflight s hr = 0)"

text \<open>
  \<open>keeps s s'\<close>: from \<open>s\<close> to \<open>s'\<close> no lock and no queue has changed and no backend call
  was started or completed; the store may have grown by records that are unlocked and
  have an empty queue.
\<close>

definition keeps :: "session \<Rightarrow> session \<Rightarrow> bool" where
  "keeps s s' =
     (length (ss_store s) \<le> length (ss_store s')
      \<and> (\<forall>hr < length (ss_store s).
            hi_locked (info s' hr) = hi_locked (info s hr) \<and> hi_tasks (info s' hr) = hi_tasks (info s hr))
      \<and> (\<forall>hr < length (ss_store s'). \<not> hr < length (ss_store s) \<longrightarrow>
            \<not> hi_locked (info s' hr) \<and> hi_tasks (info s' hr) = [])
      \<and> ss_pending s' = ss_pending s
      \<and> ((\<forall>h hr. ss_handles s h = Some hr \<longrightarrow> hr < length (ss_store s)) \<longrightarrow>
           (\<forall>h hr. ss_handles s' h = Some hr \<longrightarrow> hr < length (ss_store s'))))"

text \<open>\<open>started s x s'\<close>: from \<open>s\<close> to \<open>s'\<close> one backend call was started, for the record \<open>x\<close>.\<close>

definition started :: "session \<Rightarrow> nat option \<Rightarrow> session \<Rightarrow> bool" where
  "started s x s' = (\<exists>s1 c k. keeps s s1 \<and> s' = backend c k s1 \<and> callback_handleInfo k = x)"

text \<open>
  \<open>table_ok\<close>: the cursor and the occupied slots are within 1 to MAX_HANDLE_COUNT; a
  slot holds a record of the store whose index \<open>h\<close> is the slot; a record is either a
  tombstone (\<open>h = -1\<close>) or sits in the slot \<open>h\<close> of the table.
\<close>

definition table_ok :: "session \<Rightarrow> bool" where
  "table_ok s =
     (1 \<le> ss_nextHandle s \<and> ss_nextHandle s \<le> MAX_HANDLE_COUNT
      \<and> (\<forall>h hr. ss_handles s h = Some hr \<longrightarrow>
            1 \<le> h \<and> h \<le> MAX_HANDLE_COUNT \<and> hr < length (ss_store s) \<and> hi_h (info s hr) = h)
      \<and> (\<forall>hr < length (ss_store s).
            hi_h (info s hr) = - 1 \<or> ss_handles s (hi_h (info s hr)) = Some hr))"

text \<open>
  The handle record that a callback or a queued task names directly (the variable
  \<open>handleInfo\<close> of its closure); \<open>records_ok\<close>: these are records of the store.
\<close>

fun callback_record :: "callback \<Rightarrow> nat option" where
  "callback_record (K_open response hr path modes attrs) = Some hr"
| "callback_record (K_close_retry response hr path modes attrs) = Some hr"
| "callback_record (K_opendir response hr) = Some hr"
| "callback_record (K_readdir response hr count) = Some hr"
| "callback_record (K_sendSuccess response) = None"
| "callback_record (K_sendAttribs response) = None"
| "callback_record (K_sendPath response) = None"
| "callback_record (K_read response) = None"
| "callback_record K_discard = None"

definition records_ok :: "session \<Rightarrow> bool" where
  "records_ok s =
     ((\<forall>ck \<in> set (ss_pending s). \<forall>hr. callback_record (snd ck) = Some hr \<longrightarrow> hr < length (ss_store s))
      \<and> (\<forall>r < length (ss_store s). \<forall>t \<in> set (hi_tasks (info s r)). t_handleInfo t < length (ss_store s)))"

section \<open>Evaluation lemmas\<close>

lemma createHandleInfo_at_cursor:
  assumes free: "ss_handles s (ss_nextHandle s) = None"
  shows "createHandleInfo s =
     (Some (length (ss_store s)),
      s\<lparr> ss_store := ss_store s @ [new_SftpHandleInfo (ss_nextHandle s)],
         ss_handles := (ss_handles s)(ss_nextHandle s := Some (length (ss_store s))),
         ss_nextHandle := (ss_nextHandle s mod MAX_HANDLE_COUNT) + 1 \<rparr>)"
proof -
  have h: "nat MAX_HANDLE_COUNT = Suc 511" by (simp add: MAX_HANDLE_COUNT_def)
  show ?thesis
    unfolding createHandleInfo_def h
    by (subst createHandleInfo_scan.simps(2)) (simp add: Let_def free)
qed

lemma id_field_simps [simp]: "id_field None = 0" "id_field (Some n) = n"
  by (simp_all add: id_field_def)

declare carries_id_def [simp]

lemmas writer_defs = SftpStatus_write_def SftpStatus_writeSuccess_def start_def put_def
  writeInt32_def writeString_def skip_def finish_def fits_def check_def capacity_def

lemmas session_defs = process_def processRequest.simps processRequest_try_def send.simps
  processNext.simps sendStatus_def sendError_def sendIfError_def sendSuccess_def sendAttribs_def
  sendHandle_def sendPath_def complete_def readHandleInfo_def deleteHandleInfo_def openFile_def
  readdir_def readdir_next_def readdir_done_def writeItem_def end_session_def handle_bound_def
  info_def update_info_def channel_send_def backend_def new_SftpResponse_def new_SftpHandleInfo_def
  createHandleInfo_at_cursor MAX_HANDLE_COUNT_def Let_def

lemmas example_defs = new_session_def plain_request_def ok_result_def init_request_def
  busy_response_def busy_session_def idle_session_def open_request_def open_response_def
  enoent_result_def oversize_read_def named_item_def locked_session_def name_response_def
  items_result_def

lemma writer_handleInfo [simp]:
  "rs_handleInfo (start r) = rs_handleInfo r"
  "rs_handleInfo (put f r) = rs_handleInfo r"
  "rs_handleInfo (writeInt32 v r) = rs_handleInfo r"
  "rs_handleInfo (writeString str r) = rs_handleInfo r"
  "rs_handleInfo (skip n r) = rs_handleInfo r"
  "rs_handleInfo (SftpStatus_write r code message) = rs_handleInfo r"
  "rs_handleInfo (SftpStatus_writeSuccess r) = rs_handleInfo r"
  "rs_handleInfo (writeItem r item) = rs_handleInfo r"
  "rs_handleInfo (readdir_done r count) = rs_handleInfo r"
  by (simp_all add: writer_defs writeItem_def readdir_done_def Let_def)

lemma info_update_info:
  "info (update_info hr f s) hr' =
     (if hr' = hr \<and> hr < length (ss_store s) then f (info s hr) else info s hr')"
  by (cases "hr < length (ss_store s)") (auto simp: update_info_def info_def list_update_beyond)

lemma handle_bound_not_INIT: "handle_bound t \<Longrightarrow> t \<noteq> INIT"
  by (auto simp: handle_bound_def)

lemma send_unbound:
  "rs_handleInfo response = None \<Longrightarrow> send s response = channel_send s (finish response)"
  by (simp add: send.simps)

section \<open>What is sent\<close>

text \<open>
  Only \<open>send\<close> writes to the channel, and it appends: whatever \<open>send\<close>, \<open>processNext\<close>
  and \<open>processRequest\<close> do, the packets sent before stay, and \<open>send\<close> puts its packet
  right behind them.
\<close>

lemma sent_createHandleInfo_scan:
  "ss_sent (snd (createHandleInfo_scan s h n)) = ss_sent s"
  by (induction n arbitrary: s h) (simp_all add: Let_def split: option.split)

lemma sent_createHandleInfo: "createHandleInfo s = (x, s') \<Longrightarrow> ss_sent s' = ss_sent s"
  using sent_createHandleInfo_scan [of s "ss_nextHandle s" "nat MAX_HANDLE_COUNT"]
  by (simp add: createHandleInfo_def)

lemma sent_deleteHandleInfo:
  "deleteHandleInfo s hr = Returned s' \<or> deleteHandleInfo s hr = Threw s' \<Longrightarrow> ss_sent s' = ss_sent s"
  by (auto simp: deleteHandleInfo_def Let_def update_info_def split: if_splits option.splits)

lemma sent_readdir_next:
  "case readdir_next s r hr c items of
     Reply s' r' \<Rightarrow> ss_sent s' = ss_sent s
   | Raise s' \<Rightarrow> ss_sent s' = ss_sent s
   | Proceed s' \<Rightarrow> ss_sent s' = ss_sent s"
  by (simp add: readdir_next_def readdir_def update_info_def backend_def
      split: option.split items_loop.split)

lemma sent_processRequest_try:
  "case processRequest_try s rq rs hi of
     Reply s' r \<Rightarrow> ss_sent s' = ss_sent s
   | Raise s' \<Rightarrow> ss_sent s' = ss_sent s
   | Proceed s' \<Rightarrow> ss_sent s' = ss_sent s"
proof (cases "rq_length rq > 66000")
  case True
  then show ?thesis by (simp add: processRequest_try_def)
next
  case False
  show ?thesis
  proof (cases "rq_type rq")
    case OPEN
    with False show ?thesis
      by (auto simp: processRequest_try_def openFile_def backend_def
          split: prod.splits option.splits list.splits dest: sent_createHandleInfo)
  next
    case CLOSE
    with False sent_deleteHandleInfo [of s] show ?thesis
      by (auto simp: processRequest_try_def backend_def split: option.splits attempt.splits)
  next
    case OPENDIR
    with False show ?thesis
      by (auto simp: processRequest_try_def backend_def
          split: prod.splits option.splits dest: sent_createHandleInfo)
  next
    case READDIR
    show ?thesis
    proof (cases hi)
      case None
      with READDIR False show ?thesis by (simp add: processRequest_try_def)
    next
      case (Some hr)
      let ?r = "writeInt32 0 (start (rs\<lparr> rs_type := Some NAME \<rparr>))"
      let ?s = "update_info hr (\<lambda>i. i\<lparr> hi_items := Some [] \<rparr>) s"
      have s: "ss_sent ?s = ss_sent s" by (simp add: update_info_def)
      show ?thesis
      proof (cases "\<exists>previous. hi_items (info s hr) = Some previous \<and> previous \<noteq> []")
        case True
        then obtain previous where p: "hi_items (info s hr) = Some previous" "previous \<noteq> []"
          by blast
        have eq: "processRequest_try s rq rs hi = readdir_next ?s ?r hr 0 (Some previous)"
          using READDIR False Some p by (simp add: processRequest_try_def)
        from sent_readdir_next [where s = ?s and r = ?r and hr = hr and c = 0
            and items = "Some previous"] s
        show ?thesis
          unfolding eq by (cases "readdir_next ?s ?r hr 0 (Some previous)") simp_all
      next
        case False
        then have "processRequest_try s rq rs hi = Proceed (readdir s ?r hr 0)"
          using READDIR \<open>\<not> 66000 < rq_length rq\<close> Some
          by (auto simp: processRequest_try_def Let_def split: option.splits)
        then show ?thesis by (simp add: readdir_def backend_def)
      qed
    qed
  qed (use False in \<open>auto simp: processRequest_try_def Let_def backend_def split: option.splits\<close>)
qed

lemma sent_grows_aux:
  "\<exists>rest. ss_sent (send s response) = ss_sent s @ finish response # rest"
  "\<exists>rest. ss_sent (processNext s hr) = ss_sent s @ rest"
  "\<exists>rest. ss_sent (processRequest s request response handleInfo) = ss_sent s @ rest"
proof (induction s response and s hr and s request response handleInfo
    rule: send_processNext_processRequest.induct)
  case (1 s response)
  show ?case
  proof (cases "rs_handleInfo response")
    case None
    then show ?thesis by (simp add: send.simps channel_send_def)
  next
    case (Some hr)
    from "1.IH" [OF refl Some] obtain rest where
      "ss_sent (processNext (channel_send s (finish response)) hr) =
         ss_sent (channel_send s (finish response)) @ rest" ..
    with Some show ?thesis by (simp add: send.simps channel_send_def)
  qed
next
  case (2 s hr)
  show ?case
  proof (cases "hr < length (ss_store s)")
    case False
    then show ?thesis by (simp add: processNext.simps)
  next
    case len: True
    show ?thesis
    proof (cases "hi_tasks (info s hr)")
      case Nil
      with len show ?thesis by (simp add: processNext.simps update_info_def)
    next
      case (Cons t ts)
      let ?s1 = "update_info hr (\<lambda>i. i\<lparr> hi_tasks := ts \<rparr>) s"
      have s1: "ss_sent ?s1 = ss_sent s" by (simp add: update_info_def)
      show ?thesis
      proof (cases "hi_h (info ?s1 (t_handleInfo t)) < 0")
        case True
        from "2.IH"(1) [OF len Cons refl True] obtain rest where
          "ss_sent (send ?s1 (SftpStatus_write (t_response t) FAILURE ''Invalid handle'')) =
             ss_sent ?s1 @ finish (SftpStatus_write (t_response t) FAILURE ''Invalid handle'') # rest" ..
        with True len Cons s1 show ?thesis
          by (simp add: processNext.simps)
      next
        case False
        from "2.IH"(2) [OF len Cons refl False] obtain rest where
          "ss_sent (processRequest ?s1 (t_request t) (t_response t) (Some (t_handleInfo t))) =
             ss_sent ?s1 @ rest" ..
        with False len Cons s1 show ?thesis
          by (simp add: processNext.simps)
      qed
    qed
  qed
next
  case (3 s request response handleInfo)
  show ?case
  proof (cases "ss_fs s")
    case False
    then show ?thesis by (simp add: processRequest.simps)
  next
    case True
    note fr = sent_processRequest_try [where s = s and rq = request and rs = response
        and hi = handleInfo]
    show ?thesis
    proof (cases "processRequest_try s request response handleInfo")
      case (Reply s' r)
      with fr have eq: "ss_sent s' = ss_sent s" by simp
      from "3.IH"(1) [OF _ Reply] True obtain rest where
        "ss_sent (send s' r) = ss_sent s' @ finish r # rest" by auto
      with True Reply eq show ?thesis
        by (simp add: processRequest.simps)
    next
      case (Proceed s')
      with fr have "ss_sent s' = ss_sent s" by simp
      with True Proceed show ?thesis by (simp add: processRequest.simps)
    next
      case (Raise s')
      with fr have eq: "ss_sent s' = ss_sent s" by simp
      from "3.IH"(2) [OF _ Raise] True obtain rest where
        "ss_sent (send s' (SftpStatus_write response FAILURE ''Internal server error'')) =
           ss_sent s' @ finish (SftpStatus_write response FAILURE ''Internal server error'') # rest"
        by auto
      with True Raise eq show ?thesis
        by (simp add: processRequest.simps)
    qed
  qed
qed

section \<open>Status taxonomy\<close>



section \<open>Dispatch\<close>

text \<open>
  C10. A handle-bound request whose handle length is not 4, or whose index has no record
  in the table, is answered FAILURE "Invalid handle" and nothing else happens: the
  session is the one before with this packet sent, so every handle record (lock, queue,
  items), the table, the cursor and the calls in flight are as they were.
\<close>

theorem invalid_handle_frame:
  assumes "handle_bound (rq_type request)"
    and "rq_hlen request \<noteq> 4 \<or> ss_handles s (rq_h request) = None"
  shows "process s request =
           s\<lparr> ss_sent := ss_sent s @
                [Packet (Some STATUS) (Some (id_field (rq_id request))) 35
                   [WCode FAILURE, WString ''Invalid handle'', WString []]] \<rparr>
    \<and> ss_store (process s request) = ss_store s
    \<and> ss_handles (process s request) = ss_handles s
    \<and> ss_nextHandle (process s request) = ss_nextHandle s
    \<and> ss_pending (process s request) = ss_pending s
    \<and> ss_fs (process s request) = ss_fs s"
proof -
  have none: "readHandleInfo s request = None"
    using assms(2) by (auto simp: readHandleInfo_def)
  have "process s request =
      sendStatus s (new_SftpResponse\<lparr> rs_id := rq_id request \<rparr>) FAILURE ''Invalid handle''"
    using handle_bound_not_INIT [OF assms(1)] assms(1) none by (simp add: process_def)
  also have "\<dots> = s\<lparr> ss_sent := ss_sent s @
                [Packet (Some STATUS) (Some (id_field (rq_id request))) 35
                   [WCode FAILURE, WString ''Invalid handle'', WString []]] \<rparr>"
    by (simp add: sendStatus_def send.simps SftpStatus_write_def new_SftpResponse_def start_def
        put_def writeString_def channel_send_def finish_def)
  finally show ?thesis by simp
qed

theorem invalid_handle_frame_witness:
  "handle_bound (rq_type ((plain_request READ 9)\<lparr> rq_hlen := 5 \<rparr>))
   \<and> rq_hlen ((plain_request READ 9)\<lparr> rq_hlen := 5 \<rparr>) \<noteq> 4
   \<and> process busy_session ((plain_request READ 9)\<lparr> rq_hlen := 5 \<rparr>) =
       busy_session\<lparr> ss_sent := ss_sent busy_session @
         [Packet (Some STATUS) (Some 9) 35 [WCode FAILURE, WString ''Invalid handle'', WString []]] \<rparr>
   \<and> ss_store (process busy_session ((plain_request READ 9)\<lparr> rq_hlen := 5 \<rparr>)) = ss_store busy_session
   \<and> ss_pending (process busy_session ((plain_request READ 9)\<lparr> rq_hlen := 5 \<rparr>)) = ss_pending busy_session"
  using invalid_handle_frame [of "(plain_request READ 9)\<lparr> rq_hlen := 5 \<rparr>" busy_session]
  by (simp add: plain_request_def handle_bound_def)

section \<open>READ\<close>

text \<open>
  C7. A READ that reaches its handler (filesystem held, length within the limit, payload
  readable), with \<open>r\<close> the response started as a DATA packet. The handler does one
  thing: it hands the backend a \<open>read\<close> with the backend handle of the record, the
  buffer of the response, the offset 13 (behind the 9 bytes of the header and the 4
  bytes reserved for the length), the count capped at 0x8000 = 32768 and the file
  position; the callback holds the response. The offset is where the writer stands
  once the length is written, so the backend fills the region that the DATA packet
  then skips. In the callback, at any later state \<open>t\<close>: when the backend reports no
  error and zero bytes, the packet sent is the status EOF; when it reports \<open>n > 0\<close>
  bytes (at most 0x8000), the packet sent is DATA, with the length field \<open>n\<close> followed
  by the \<open>n\<close> bytes of the region. The packet is put behind what the channel was sent
  before, and the next task of the handle that the response is bound to is started.
\<close>

theorem read_behaviour:
  fixes s t :: session and request :: SftpRequest and response :: SftpResponse
    and res :: fs_result and hr :: nat
  defines "r \<equiv> start (response\<lparr> rs_type := Some DATA \<rparr>)"
    and "n \<equiv> res_bytesRead res"
    and "eof \<equiv> Packet (Some STATUS) (Some (id_field (rs_id response))) 24
                  [WCode EOF, WString ''EOF'', WString []]"
    and "data \<equiv> Packet (Some DATA) (Some (id_field (rs_id response))) (13 + res_bytesRead res)
                  [WInt32 (int (res_bytesRead res)), WSkip (res_bytesRead res)]"
  assumes "ss_fs s" and "rq_type request = READ" and "rq_length request \<le> 66000"
    and "rq_decodes request"
  shows "processRequest s request response (Some hr) =
           s\<lparr> ss_pending := ss_pending s @
                [(FsRead (hi_handle (info s hr)) (ResponseBuffer r) 13
                    (min (rq_count request) 32768) (rq_position request),
                  K_read r)] \<rparr>
    \<and> rs_position (writeInt32 (int n) r) = 13
    \<and> (res_err res = None \<and> n = 0 \<longrightarrow>
          (\<exists>t' rest. resume t (K_read r) res = Returned t'
             \<and> t' = (case rs_handleInfo response of
                       None \<Rightarrow> t\<lparr> ss_sent := ss_sent t @ [eof] \<rparr>
                     | Some h \<Rightarrow> processNext (t\<lparr> ss_sent := ss_sent t @ [eof] \<rparr>) h)
             \<and> ss_sent t' = ss_sent t @ eof # rest))
    \<and> (res_err res = None \<and> 0 < n \<and> n \<le> 32768 \<longrightarrow>
          (\<exists>t' rest. resume t (K_read r) res = Returned t'
             \<and> t' = (case rs_handleInfo response of
                       None \<Rightarrow> t\<lparr> ss_sent := ss_sent t @ [data] \<rparr>
                     | Some h \<Rightarrow> processNext (t\<lparr> ss_sent := ss_sent t @ [data] \<rparr>) h)
             \<and> ss_sent t' = ss_sent t @ data # rest))"
proof -
  have call: "processRequest s request response (Some hr) =
           s\<lparr> ss_pending := ss_pending s @
                [(FsRead (hi_handle (info s hr)) (ResponseBuffer r) 13
                    (min (rq_count request) 32768) (rq_position request),
                  K_read r)] \<rparr>"
    using assms(5-8)
    by (auto simp: processRequest.simps processRequest_try_def Let_def check_def start_def
        capacity_def backend_def min_def r_def)
  have region: "rs_position (writeInt32 (int n) r) = 13"
    by (simp add: r_def writer_defs)
  have sent: "\<exists>rest. send t q = (case rs_handleInfo q of
                       None \<Rightarrow> t\<lparr> ss_sent := ss_sent t @ [finish q] \<rparr>
                     | Some h \<Rightarrow> processNext (t\<lparr> ss_sent := ss_sent t @ [finish q] \<rparr>) h)
             \<and> ss_sent (send t q) = ss_sent t @ finish q # rest" for q
    using sent_grows_aux(1) [of t q]
    by (auto simp: send.simps channel_send_def split: option.split)
  have e: "\<exists>t' rest. resume t (K_read r) res = Returned t'
             \<and> t' = (case rs_handleInfo response of
                       None \<Rightarrow> t\<lparr> ss_sent := ss_sent t @ [eof] \<rparr>
                     | Some h \<Rightarrow> processNext (t\<lparr> ss_sent := ss_sent t @ [eof] \<rparr>) h)
             \<and> ss_sent t' = ss_sent t @ eof # rest"
    if "res_err res = None \<and> n = 0"
  proof -
    have "resume t (K_read r) res = Returned (send t (SftpStatus_write r EOF ''EOF''))"
      using that by (simp add: sendIfError_def sendStatus_def n_def)
    moreover have "finish (SftpStatus_write r EOF ''EOF'') = eof"
      by (simp add: r_def eof_def writer_defs)
    moreover have "rs_handleInfo (SftpStatus_write r EOF ''EOF'') = rs_handleInfo response"
      by (simp add: r_def)
    ultimately show ?thesis
      using sent [of "SftpStatus_write r EOF ''EOF''"] by auto
  qed
  have d: "\<exists>t' rest. resume t (K_read r) res = Returned t'
             \<and> t' = (case rs_handleInfo response of
                       None \<Rightarrow> t\<lparr> ss_sent := ss_sent t @ [data] \<rparr>
                     | Some h \<Rightarrow> processNext (t\<lparr> ss_sent := ss_sent t @ [data] \<rparr>) h)
             \<and> ss_sent t' = ss_sent t @ data # rest"
    if "res_err res = None \<and> 0 < n \<and> n \<le> 32768"
  proof -
    let ?q = "skip (res_bytesRead res) (writeInt32 (int (res_bytesRead res)) r)"
    have "fits ?q"
      using that by (simp add: r_def n_def writer_defs)
    then have "resume t (K_read r) res = Returned (send t ?q)"
      using that by (simp add: sendIfError_def Let_def n_def)
    moreover have "finish ?q = data"
      by (simp add: r_def data_def writer_defs)
    moreover have "rs_handleInfo ?q = rs_handleInfo response"
      by (simp add: r_def)
    ultimately show ?thesis
      using sent [of ?q] by auto
  qed
  from call region e d show ?thesis by blast
qed

theorem read_behaviour_witness:
  "processRequest locked_session ((plain_request READ 2)\<lparr> rq_count := 100000 \<rparr>) (busy_response 2) (Some 0) =
     locked_session\<lparr> ss_pending :=
       [(FsRead (Some 7) (ResponseBuffer (start ((busy_response 2)\<lparr> rs_type := Some DATA \<rparr>))) 13 32768 0,
         K_read (start ((busy_response 2)\<lparr> rs_type := Some DATA \<rparr>)))] \<rparr>
   \<and> resume locked_session (K_read (start ((busy_response 2)\<lparr> rs_type := Some DATA \<rparr>)))
        (FsResult None None 0 (SftpAttributes None None None None) None []) =
       Returned (idle_session\<lparr> ss_sent := ss_sent idle_session @
         [Packet (Some STATUS) (Some 2) 24 [WCode EOF, WString ''EOF'', WString []]] \<rparr>)
   \<and> resume locked_session (K_read (start ((busy_response 2)\<lparr> rs_type := Some DATA \<rparr>))) ok_result =
       Returned (idle_session\<lparr> ss_sent := ss_sent idle_session @
         [Packet (Some DATA) (Some 2) 17 [WInt32 4, WSkip 4]] \<rparr>)"
proof -
  let ?rq = "(plain_request READ 2)\<lparr> rq_count := 100000 \<rparr>"
  let ?none = "FsResult None None 0 (SftpAttributes None None None None) None []"
  note th = read_behaviour [where s = locked_session and t = locked_session and request = ?rq
      and response = "busy_response 2" and hr = 0]
  have unlock: "processNext (locked_session\<lparr> ss_sent := ss_sent locked_session @ [p] \<rparr>) 0 =
      idle_session\<lparr> ss_sent := ss_sent idle_session @ [p] \<rparr>" for p
    by (simp add: locked_session_def idle_session_def processNext.simps update_info_def info_def)
  have 1: "processRequest locked_session ?rq (busy_response 2) (Some 0) =
     locked_session\<lparr> ss_pending :=
       [(FsRead (Some 7) (ResponseBuffer (start ((busy_response 2)\<lparr> rs_type := Some DATA \<rparr>))) 13 32768 0,
         K_read (start ((busy_response 2)\<lparr> rs_type := Some DATA \<rparr>)))] \<rparr>"
    using th [where res = ok_result]
    by (simp add: locked_session_def idle_session_def plain_request_def update_info_def info_def)
  have 2: "resume locked_session (K_read (start ((busy_response 2)\<lparr> rs_type := Some DATA \<rparr>))) ?none =
       Returned (idle_session\<lparr> ss_sent := ss_sent idle_session @
         [Packet (Some STATUS) (Some 2) 24 [WCode EOF, WString ''EOF'', WString []]] \<rparr>)"
  proof -
    have "ss_fs locked_session" "rq_type ?rq = READ" "rq_length ?rq \<le> 66000" "rq_decodes ?rq"
      by (simp_all add: locked_session_def idle_session_def plain_request_def update_info_def)
    from th [where res = ?none, OF this] show ?thesis
      by (auto simp: busy_response_def unlock)
  qed
  have 3: "resume locked_session (K_read (start ((busy_response 2)\<lparr> rs_type := Some DATA \<rparr>))) ok_result =
       Returned (idle_session\<lparr> ss_sent := ss_sent idle_session @
         [Packet (Some DATA) (Some 2) 17 [WInt32 4, WSkip 4]] \<rparr>)"
  proof -
    have "ss_fs locked_session" "rq_type ?rq = READ" "rq_length ?rq \<le> 66000" "rq_decodes ?rq"
      by (simp_all add: locked_session_def idle_session_def plain_request_def update_info_def)
    from th [where res = ok_result, OF this] show ?thesis
      by (auto simp: busy_response_def ok_result_def unlock)
  qed
  from 1 2 3 show ?thesis by blast
qed

section \<open>OPEN\<close>









section \<open>Teardown\<close>

text \<open>
  After \<open>end\<close>, \<open>_process\<close> still does things: an INIT is answered with VERSION on the
  closed channel, and a request for a handle of the table takes the record's lock.
\<close>

theorem process_after_end_counterexample:
  "process (end_session idle_session) init_request \<noteq> end_session idle_session
   \<and> ss_sent (process (end_session idle_session) init_request) =
       ss_sent (end_session idle_session) @ [Packet (Some VERSION) None 9 [WInt32 3]]
   \<and> \<not> hi_locked (info (end_session idle_session) 0)
   \<and> hi_locked (info (process (end_session idle_session) (plain_request READ 2)) 0)"
proof -
  have sent: "ss_sent (process (end_session idle_session) init_request) =
       ss_sent (end_session idle_session) @ [Packet (Some VERSION) None 9 [WInt32 3]]"
    by (simp add: process_def init_request_def plain_request_def send_unbound new_SftpResponse_def
        writer_defs channel_send_def)
  then have "process (end_session idle_session) init_request \<noteq> end_session idle_session"
    by auto
  moreover have "\<not> hi_locked (info (end_session idle_session) 0)"
    by (simp add: end_session_def idle_session_def info_def Let_def)
  moreover have "hi_locked (info (process (end_session idle_session) (plain_request READ 2)) 0)"
    by (simp add: process_def plain_request_def handle_bound_def readHandleInfo_def
        end_session_def idle_session_def info_def update_info_def processRequest.simps Let_def)
  ultimately show ?thesis using sent by blast
qed

text \<open>
  C3, amended. \<open>end\<close> closes the channel. When the filesystem is held, it submits the
  backend handle of every record of the table to the backend's close, once each, with
  a callback that ignores the outcome, and drops the filesystem reference; the table
  and the records stay as they are. A second \<open>end\<close> only closes the channel again.
  After \<open>end\<close>, \<open>processRequest\<close> does nothing, whatever the request, so \<open>_process\<close>
  does nothing for a request that is neither INIT nor handle-bound.
\<close>

theorem session_teardown:
  "ss_closed (end_session s) = Suc (ss_closed s)
   \<and> \<not> ss_fs (end_session s)
   \<and> (ss_fs s \<longrightarrow>
        ss_pending (end_session s) = ss_pending s @
          map (\<lambda>hr. (FsClose (hi_handle (info s hr)), K_discard))
            (List.map_filter (ss_handles s) [0..MAX_HANDLE_COUNT]))
   \<and> (ss_fs s \<and> 0 \<le> h \<and> h \<le> MAX_HANDLE_COUNT \<and> ss_handles s h = Some hr \<longrightarrow>
        (FsClose (hi_handle (info s hr)), K_discard) \<in> set (ss_pending (end_session s)))
   \<and> resume t K_discard res = Returned t
   \<and> (\<not> ss_fs s \<longrightarrow> end_session s = s\<lparr> ss_closed := Suc (ss_closed s) \<rparr>)
   \<and> end_session (end_session s) = (end_session s)\<lparr> ss_closed := Suc (Suc (ss_closed s)) \<rparr>
   \<and> ss_store (end_session s) = ss_store s
   \<and> ss_handles (end_session s) = ss_handles s
   \<and> ss_sent (end_session s) = ss_sent s
   \<and> processRequest (end_session s) request response handleInfo = end_session s
   \<and> (rq_type request \<noteq> INIT \<and> \<not> handle_bound (rq_type request) \<longrightarrow>
        process (end_session s) request = end_session s)"
proof -
  have nofs: "\<not> ss_fs (end_session s)"
    by (simp add: end_session_def Let_def)
  have req: "processRequest (end_session s) rq rs hi = end_session s" for rq rs hi
    using nofs by (simp add: processRequest.simps)
  have mem: "(FsClose (hi_handle (info s hr)), K_discard) \<in> set (ss_pending (end_session s))"
    if "ss_fs s \<and> 0 \<le> h \<and> h \<le> MAX_HANDLE_COUNT \<and> ss_handles s h = Some hr"
  proof -
    from that have "hr \<in> set (List.map_filter (ss_handles s) [0..MAX_HANDLE_COUNT])"
      by (auto simp: List.map_filter_def intro!: image_eqI [where x = h])
    with that show ?thesis
      by (simp add: end_session_def Let_def info_def)
  qed
  have twice: "end_session (end_session s) = (end_session s)\<lparr> ss_closed := Suc (Suc (ss_closed s)) \<rparr>"
    by (simp add: end_session_def Let_def)
  show ?thesis
    using nofs req mem twice
    by (simp add: end_session_def Let_def info_def process_def)
qed

theorem session_teardown_witness:
  "ss_pending (end_session idle_session) = [(FsClose (Some 7), K_discard)]
   \<and> (FsClose (Some 7), K_discard) \<in> set (ss_pending (end_session idle_session))
   \<and> end_session (end_session idle_session) = (end_session idle_session)\<lparr> ss_closed := 2 \<rparr>
   \<and> end_session (end_session idle_session) = (end_session idle_session)\<lparr> ss_closed := Suc (ss_closed (end_session idle_session)) \<rparr>
   \<and> processRequest (end_session idle_session) (plain_request READ 2) (busy_response 2) (Some 0)
       = end_session idle_session
   \<and> process (end_session idle_session) (plain_request STAT 4) = end_session idle_session"
proof -
  have one: "List.map_filter ((\<lambda>_. None)(1 := Some (0::nat))) [0..MAX_HANDLE_COUNT] = [0]"
  proof -
    have "[0..MAX_HANDLE_COUNT] = 0 # 1 # [2..MAX_HANDLE_COUNT]"
      by (simp add: MAX_HANDLE_COUNT_def upto_rec1 [of 0] upto_rec1 [of 1])
    moreover have "List.map_filter ((\<lambda>_. None)(1 := Some (0::nat))) [2..MAX_HANDLE_COUNT] = []"
      by (auto simp: List.map_filter_def filter_empty_conv)
    ultimately show ?thesis by simp
  qed
  note th = session_teardown [of idle_session 1 0 idle_session ok_result "plain_request READ 2"
      "busy_response 2" "Some 0"]
  note th' = session_teardown [of idle_session 1 0 idle_session ok_result "plain_request STAT 4"
      "busy_response 2" "Some 0"]
  have fs: "ss_fs idle_session" and h: "ss_handles idle_session 1 = Some 0"
    and c: "ss_closed idle_session = 0" and p: "ss_pending idle_session = []"
    and i: "hi_handle (info idle_session 0) = Some 7"
    and hs: "ss_handles idle_session = (\<lambda>_. None)(1 := Some 0)"
    by (simp_all add: idle_session_def info_def)
  have pend: "ss_pending (end_session idle_session) = [(FsClose (Some 7), K_discard)]"
    using th fs p i one by (simp add: hs)
  then have "(FsClose (Some 7), K_discard) \<in> set (ss_pending (end_session idle_session))"
    by simp
  moreover note pend
  moreover have "end_session (end_session idle_session) = (end_session idle_session)\<lparr> ss_closed := 2 \<rparr>"
    using th c by (simp add: numeral_2_eq_2)
  moreover have "end_session (end_session idle_session) =
      (end_session idle_session)\<lparr> ss_closed := Suc (ss_closed (end_session idle_session)) \<rparr>"
    using th c by simp
  moreover have "processRequest (end_session idle_session) (plain_request READ 2) (busy_response 2) (Some 0)
       = end_session idle_session"
    using th by simp
  moreover have "process (end_session idle_session) (plain_request STAT 4) = end_session idle_session"
    using th' by (simp add: plain_request_def handle_bound_def)
  ultimately show ?thesis by blast
qed

section \<open>Oversize packets\<close>




section \<open>READDIR\<close>

lemma position_writeItem: "rs_position (writeItem r item) = rs_position r + item_bytes item"
  by (simp add: writeItem_def item_bytes_def writer_defs Let_def)

lemma write_items_Exceeded:
  "write_items r c list = Exceeded r' c' rest \<Longrightarrow>
     \<exists>taken. list = taken @ rest \<and> taken \<noteq> [] \<and> r' = foldl writeItem r taken
       \<and> c' = c + length taken \<and> 28672 < rs_position r'
       \<and> (\<forall>k. 0 < k \<and> k < length taken \<longrightarrow> rs_position (foldl writeItem r (take k taken)) \<le> 28672)"
proof (induction list arbitrary: r c)
  case Nil
  then show ?case by simp
next
  case (Cons item list)
  show ?case
  proof (cases "28672 < rs_position (writeItem r item)")
    case True
    with Cons.prems have "r' = writeItem r item \<and> c' = Suc c \<and> rest = list"
      by (simp add: Let_def split: if_splits)
    with True show ?thesis
      by (intro exI [where x = "[item]"]) simp
  next
    case False
    with Cons.prems have rec: "write_items (writeItem r item) (Suc c) list = Exceeded r' c' rest"
      by (simp add: Let_def split: if_splits)
    from Cons.IH [OF rec] obtain taken where t: "list = taken @ rest" "taken \<noteq> []"
      "r' = foldl writeItem (writeItem r item) taken" "c' = Suc c + length taken"
      "28672 < rs_position r'"
      "\<forall>k. 0 < k \<and> k < length taken \<longrightarrow>
         rs_position (foldl writeItem (writeItem r item) (take k taken)) \<le> 28672"
      by blast
    have "rs_position (foldl writeItem r (take k (item # taken))) \<le> 28672"
      if "0 < k \<and> k < length (item # taken)" for k
    proof (cases k)
      case 0
      with that show ?thesis by simp
    next
      case (Suc j)
      show ?thesis
      proof (cases "j = 0")
        case True
        with Suc False show ?thesis by simp
      next
        case False
        with Suc that t(6) show ?thesis by simp
      qed
    qed
    with t show ?thesis
      by (intro exI [where x = "item # taken"]) simp
  qed
qed

lemma write_items_Drained:
  "write_items r c list = Drained r' c' \<Longrightarrow>
     r' = foldl writeItem r list \<and> c' = c + length list
       \<and> (\<forall>k. 0 < k \<and> k \<le> length list \<longrightarrow> rs_position (foldl writeItem r (take k list)) \<le> 28672)"
proof (induction list arbitrary: r c)
  case Nil
  then show ?case by simp
next
  case (Cons item list)
  from Cons.prems have small: "\<not> 28672 < rs_position (writeItem r item)"
    and rec: "write_items (writeItem r item) (Suc c) list = Drained r' c'"
    by (simp_all add: Let_def split: if_splits)
  note ih = Cons.IH [OF rec]
  have "rs_position (foldl writeItem r (take k (item # list))) \<le> 28672"
    if "0 < k \<and> k \<le> length (item # list)" for k
  proof (cases k)
    case 0
    with that show ?thesis by simp
  next
    case (Suc j)
    show ?thesis
    proof (cases "j = 0")
      case True
      with Suc small show ?thesis by simp
    next
      case False
      with Suc that ih show ?thesis by simp
    qed
  qed
  with ih show ?case by simp
qed

text \<open>
  The item that takes the response across the budget is written and counted, and the
  packet is longer than 0x7000 bytes: with three items of 113, 28613 and 113 bytes, the
  second crosses the budget, the packet holds the first two (28739 bytes), and only the
  third is put back on the handle record.
\<close>

theorem readdir_budget_counterexample:
  "rs_position name_response + item_bytes (named_item 100) \<le> 28672
   \<and> 28672 < rs_position name_response + item_bytes (named_item 100) + item_bytes (named_item 28600)
   \<and> resume locked_session (K_readdir name_response 0 0)
        (items_result [named_item 100, named_item 28600, named_item 100]) =
       Returned (idle_session\<lparr>
         ss_store := [\<lparr> hi_h = 1, hi_handle = Some 7, hi_items = Some [named_item 100],
                        hi_locked = False, hi_tasks = [] \<rparr>],
         ss_sent := ss_sent idle_session @
           [Packet (Some NAME) (Some 4) 28739
              [WInt32 2,
               WString (replicate 100 CHR ''x''), WString ''l'', WAttrs (SftpAttributes None None None None),
               WString (replicate 28600 CHR ''x''), WString ''l'', WAttrs (SftpAttributes None None None None)]] \<rparr>)"
  by (simp add: example_defs item_bytes_def attr_bytes_def sendIfError_def readdir_next_def
      readdir_done_def writeItem_def writer_defs send.simps processNext.simps channel_send_def
      update_info_def info_def Let_def)

text \<open>
  C5, amended. READDIR writes a count placeholder and then items, counting each and
  comparing the position with 0x7000 after each. The loop stops at the first item
  after which the position is beyond the budget: that item is part of the packet
  (every shorter run of the taken items stayed within the budget), the items behind
  it are put on the handle record, and the NAME packet is sent with the number of
  items written over the placeholder. A READDIR that finds items on the record takes
  them first, before any call of the backend; otherwise it polls the backend. When the
  backend reports the end (false) and no item has been written, the reply is the
  status EOF. Throughout, a call of the backend joins the calls in flight and changes
  nothing else, and \<open>send\<close> puts its packet right behind the packets sent before.
\<close>

theorem readdir_pagination:
  assumes "ss_fs s" and "rq_type request = READDIR" and "rq_length request \<le> 66000"
    and "r0 = writeInt32 0 (start (response\<lparr> rs_type := Some NAME \<rparr>))"
  shows "(write_items r c list = Exceeded r' c' rest \<longrightarrow>
            (\<exists>taken. list = taken @ rest \<and> taken \<noteq> [] \<and> r' = foldl writeItem r taken
               \<and> c' = c + length taken \<and> 28672 < rs_position r'
               \<and> (\<forall>k. 0 < k \<and> k < length taken \<longrightarrow>
                     rs_position (foldl writeItem r (take k taken)) \<le> 28672))
            \<and> (res_err res = None \<and> res_items res = Some list \<longrightarrow>
                 resume t (K_readdir r hr c) res =
                   Returned (send (update_info hr (\<lambda>i. i\<lparr> hi_items := Some rest \<rparr>) t)
                     (r'\<lparr> rs_body := (rs_body r')[0 := WInt32 (int c')] \<rparr>))))
    \<and> (write_items r c list = Drained r' c' \<and> res_err res = None \<and> res_items res = Some list \<longrightarrow>
          resume t (K_readdir r hr c) res =
            Returned (backend (FsReaddir (hi_handle (info t hr))) (K_readdir r' hr c') t))
    \<and> (hi_items (info s hr) = Some previous \<and> previous \<noteq> [] \<longrightarrow>
          processRequest s request response (Some hr) =
            (case write_items r0 0 previous of
               Exceeded r' c' rest \<Rightarrow>
                 send (update_info hr (\<lambda>i. i\<lparr> hi_items := Some rest \<rparr>)
                         (update_info hr (\<lambda>i. i\<lparr> hi_items := Some [] \<rparr>) s))
                   (r'\<lparr> rs_body := (rs_body r')[0 := WInt32 (int c')] \<rparr>)
             | Drained r' c' \<Rightarrow>
                 backend (FsReaddir (hi_handle (info s hr))) (K_readdir r' hr c')
                   (update_info hr (\<lambda>i. i\<lparr> hi_items := Some [] \<rparr>) s)
             | Overflowed \<Rightarrow>
                 sendStatus (update_info hr (\<lambda>i. i\<lparr> hi_items := Some [] \<rparr>) s) response FAILURE
                   ''Internal server error''))
    \<and> (hi_items (info s hr) = None \<or> hi_items (info s hr) = Some [] \<longrightarrow>
          processRequest s request response (Some hr) =
            backend (FsReaddir (hi_handle (info s hr))) (K_readdir r0 hr 0) s)
    \<and> (res_err res = None \<and> res_items res = None \<longrightarrow>
          resume t (K_readdir r hr 0) res = Returned (sendStatus t r EOF ''EOF'')
          \<and> (0 < c \<longrightarrow> resume t (K_readdir r hr c) res =
                Returned (send t (r\<lparr> rs_body := (rs_body r)[0 := WInt32 (int c)] \<rparr>))))
    \<and> backend call k u = u\<lparr> ss_pending := ss_pending u @ [(call, k)] \<rparr>
    \<and> sendStatus u q code message = send u (SftpStatus_write q code message)
    \<and> (\<exists>more. ss_sent (send u q) = ss_sent u @ finish q # more)"
proof -
  have H: "backend call k u = u\<lparr> ss_pending := ss_pending u @ [(call, k)] \<rparr>"
    by (simp add: backend_def)
  have I: "sendStatus u q code message = send u (SftpStatus_write q code message)"
    by (simp add: sendStatus_def)
  have J: "\<exists>more. ss_sent (send u q) = ss_sent u @ finish q # more"
    by (rule sent_grows_aux(1))
  have A: "\<exists>taken. list = taken @ rest \<and> taken \<noteq> [] \<and> r' = foldl writeItem r taken
               \<and> c' = c + length taken \<and> 28672 < rs_position r'
               \<and> (\<forall>k. 0 < k \<and> k < length taken \<longrightarrow>
                     rs_position (foldl writeItem r (take k taken)) \<le> 28672)"
    if "write_items r c list = Exceeded r' c' rest"
    using that by (rule write_items_Exceeded)
  have pos: "0 < c2" if "write_items r1 c1 l1 = Exceeded r2 c2 l2" for r1 c1 l1 r2 c2 l2
    using write_items_Exceeded [OF that] by auto
  have B: "resume t (K_readdir r hr c) res =
                   Returned (send (update_info hr (\<lambda>i. i\<lparr> hi_items := Some rest \<rparr>) t)
                     (r'\<lparr> rs_body := (rs_body r')[0 := WInt32 (int c')] \<rparr>))"
    if "write_items r c list = Exceeded r' c' rest" and "res_err res = None \<and> res_items res = Some list"
    using that pos [OF that(1)] by (simp add: sendIfError_def readdir_next_def readdir_done_def)
  have C: "resume t (K_readdir r hr c) res =
            Returned (backend (FsReaddir (hi_handle (info t hr))) (K_readdir r' hr c') t)"
    if "write_items r c list = Drained r' c' \<and> res_err res = None \<and> res_items res = Some list"
    using that by (simp add: sendIfError_def readdir_next_def readdir_def)
  have D: "processRequest s request response (Some hr) =
            (case write_items r0 0 previous of
               Exceeded r' c' rest \<Rightarrow>
                 send (update_info hr (\<lambda>i. i\<lparr> hi_items := Some rest \<rparr>)
                         (update_info hr (\<lambda>i. i\<lparr> hi_items := Some [] \<rparr>) s))
                   (r'\<lparr> rs_body := (rs_body r')[0 := WInt32 (int c')] \<rparr>)
             | Drained r' c' \<Rightarrow>
                 backend (FsReaddir (hi_handle (info s hr))) (K_readdir r' hr c')
                   (update_info hr (\<lambda>i. i\<lparr> hi_items := Some [] \<rparr>) s)
             | Overflowed \<Rightarrow>
                 sendStatus (update_info hr (\<lambda>i. i\<lparr> hi_items := Some [] \<rparr>) s) response FAILURE
                   ''Internal server error'')"
    if p: "hi_items (info s hr) = Some previous \<and> previous \<noteq> []"
  proof (cases "write_items r0 0 previous")
    case Overflowed
    with p assms show ?thesis
      by (simp add: processRequest.simps processRequest_try_def readdir_next_def sendStatus_def
          update_info_def)
  next
    case (Exceeded r' c' rest)
    with p assms pos [OF Exceeded] show ?thesis
      by (simp add: processRequest.simps processRequest_try_def readdir_next_def readdir_done_def
          update_info_def)
  next
    case (Drained r' c')
    have "hi_handle (info (update_info hr (\<lambda>i. i\<lparr> hi_items := Some [] \<rparr>) s) hr) = hi_handle (info s hr)"
      by (simp add: info_update_info)
    with Drained p assms show ?thesis
      by (simp add: processRequest.simps processRequest_try_def readdir_next_def readdir_def
          update_info_def)
  qed
  have E: "processRequest s request response (Some hr) =
            backend (FsReaddir (hi_handle (info s hr))) (K_readdir r0 hr 0) s"
    if "hi_items (info s hr) = None \<or> hi_items (info s hr) = Some []"
    using that assms
    by (auto simp: processRequest.simps processRequest_try_def readdir_def)
  have F: "resume t (K_readdir r hr 0) res = Returned (sendStatus t r EOF ''EOF'')"
    and G: "0 < c \<Longrightarrow> resume t (K_readdir r hr c) res =
                Returned (send t (r\<lparr> rs_body := (rs_body r)[0 := WInt32 (int c)] \<rparr>))"
    if "res_err res = None \<and> res_items res = None"
    using that by (simp_all add: sendIfError_def readdir_next_def readdir_done_def sendStatus_def)
  show ?thesis
    using A B C D E F G H I J by blast
qed

theorem readdir_pagination_witness:
  "resume locked_session (K_readdir name_response 0 0)
      (items_result [named_item 100, named_item 28600, named_item 100]) =
     Returned (send (update_info 0 (\<lambda>i. i\<lparr> hi_items := Some [named_item 100] \<rparr>) locked_session)
       ((writeItem (writeItem name_response (named_item 100)) (named_item 28600))
          \<lparr> rs_body := (rs_body (writeItem (writeItem name_response (named_item 100)) (named_item 28600)))
               [0 := WInt32 2] \<rparr>))
   \<and> processRequest locked_session (plain_request READDIR 4) (busy_response 4) (Some 0) =
       backend (FsReaddir (Some 7)) (K_readdir name_response 0 0) locked_session
   \<and> processRequest (update_info 0 (\<lambda>i. i\<lparr> hi_items := Some [named_item 100] \<rparr>) locked_session)
         (plain_request READDIR 4) (busy_response 4) (Some 0) =
       backend (FsReaddir (Some 7)) (K_readdir (writeItem name_response (named_item 100)) 0 1)
         (update_info 0 (\<lambda>i. i\<lparr> hi_items := Some [] \<rparr>)
            (update_info 0 (\<lambda>i. i\<lparr> hi_items := Some [named_item 100] \<rparr>) locked_session))
   \<and> resume locked_session (K_readdir name_response 0 0)
         (FsResult None None 0 (SftpAttributes None None None None) None []) =
       Returned (sendStatus locked_session name_response EOF ''EOF'')"
proof -
  let ?a = "named_item 100" and ?b = "named_item 28600"
  let ?rq = "plain_request READDIR 4"
  let ?stash = "update_info 0 (\<lambda>i. i\<lparr> hi_items := Some [?a] \<rparr>) locked_session"
  have pa: "rs_position (writeItem name_response ?a) = 126"
    and pb: "rs_position (writeItem (writeItem name_response ?a) ?b) = 28739"
    by (simp_all add: position_writeItem item_bytes_def attr_bytes_def example_defs writer_defs)
  have fa: "fits (writeItem name_response ?a)"
    and fb: "fits (writeItem (writeItem name_response ?a) ?b)"
    by (simp_all add: fits_def capacity_def pa pb)
  have loop: "write_items name_response 0 [?a, ?b, ?a] =
      Exceeded (writeItem (writeItem name_response ?a) ?b) 2 [?a]"
    by (simp add: Let_def pa pb fa fb)
  have loop1: "write_items name_response 0 [?a] = Drained (writeItem name_response ?a) 1"
    by (simp add: Let_def pa fa)
  have fs: "ss_fs locked_session" "ss_fs ?stash"
    and rq: "rq_type ?rq = READDIR" "rq_length ?rq \<le> 66000"
    and r0: "name_response = writeInt32 0 (start ((busy_response 4)\<lparr> rs_type := Some NAME \<rparr>))"
    and i1: "hi_items (info locked_session 0) = None"
    and i2: "hi_items (info ?stash 0) = Some [?a]"
    and h1: "hi_handle (info locked_session 0) = Some 7"
    and h2: "hi_handle (info ?stash 0) = Some 7"
    by (simp_all add: example_defs update_info_def info_def)
  note th1 = readdir_pagination [OF fs(1) rq r0, where r = name_response and c = 0
      and list = "[?a, ?b, ?a]" and r' = "writeItem (writeItem name_response ?a) ?b" and c' = 2
      and rest = "[?a]" and res = "items_result [?a, ?b, ?a]" and t = locked_session and hr = 0]
  note th2 = readdir_pagination [OF fs(1) rq r0, where r = name_response and hr = 0
      and t = locked_session and res = "FsResult None None 0 (SftpAttributes None None None None) None []"]
  note th3 = readdir_pagination [OF fs(2) rq r0, where hr = 0 and previous = "[?a]"]
  have 1: "resume locked_session (K_readdir name_response 0 0) (items_result [?a, ?b, ?a]) =
     Returned (send (update_info 0 (\<lambda>i. i\<lparr> hi_items := Some [?a] \<rparr>) locked_session)
       ((writeItem (writeItem name_response ?a) ?b)
          \<lparr> rs_body := (rs_body (writeItem (writeItem name_response ?a) ?b)) [0 := WInt32 2] \<rparr>))"
    using th1 loop by (simp add: items_result_def)
  have 2: "processRequest locked_session ?rq (busy_response 4) (Some 0) =
       backend (FsReaddir (Some 7)) (K_readdir name_response 0 0) locked_session"
    using th2 i1 h1 by simp
  have 3: "processRequest ?stash ?rq (busy_response 4) (Some 0) =
       backend (FsReaddir (Some 7)) (K_readdir (writeItem name_response ?a) 0 1)
         (update_info 0 (\<lambda>i. i\<lparr> hi_items := Some [] \<rparr>) ?stash)"
    using th3 i2 h2 loop1 by simp
  have 4: "resume locked_session (K_readdir name_response 0 0)
         (FsResult None None 0 (SftpAttributes None None None None) None []) =
       Returned (sendStatus locked_session name_response EOF ''EOF'')"
    using th2 by simp
  from 1 2 3 4 show ?thesis by blast
qed

section \<open>Capacity of the response buffer\<close>

lemma write_items_within:
  assumes "rs_position r \<le> 28672" and "\<forall>item \<in> set list. item_bytes item \<le> 5328"
  shows "write_items r c list \<noteq> Overflowed
    \<and> (\<forall>r' c' rest. write_items r c list = Exceeded r' c' rest \<longrightarrow> rs_position r' \<le> capacity)
    \<and> (\<forall>r' c'. write_items r c list = Drained r' c' \<longrightarrow> rs_position r' \<le> 28672)"
  using assms
proof (induction list arbitrary: r c)
  case Nil
  then show ?case by simp
next
  case (Cons item list)
  have p: "rs_position (writeItem r item) \<le> 34000"
    using Cons.prems by (simp add: position_writeItem)
  then have f: "fits (writeItem r item)"
    by (simp add: fits_def capacity_def)
  show ?case
  proof (cases "28672 < rs_position (writeItem r item)")
    case True
    with f p show ?thesis by (simp add: Let_def capacity_def)
  next
    case False
    then have "rs_position (writeItem r item) \<le> 28672" by simp
    from Cons.IH [OF this, of "Suc c"] Cons.prems(2) f False show ?thesis
      by (simp add: Let_def)
  qed
qed

text \<open>
  One directory item of more than 34000 bytes: the writer's capacity check fails while
  the item is written, in the callback of readdir.
\<close>

theorem writer_overflow_counterexample:
  "rs_position name_response \<le> 28672
   \<and> write_items name_response 0 [named_item 34000] = Overflowed
   \<and> resume locked_session (K_readdir name_response 0 0) (items_result [named_item 34000]) =
       Threw locked_session"
  by (simp add: example_defs sendIfError_def readdir_next_def writeItem_def writer_defs Let_def)

text \<open>
  C9, amended. The response writer has a capacity of 34000 bytes. READ: the handler's
  own check of 4 bytes and the capped count always passes, so the handler goes on to
  the backend, and a DATA response for up to 0x8000 bytes fits (at most 32781 bytes).
  READDIR: the response starts within the budget 0x7000; when the position is within
  the budget and every item takes at most 34000 - 0x7000 = 5328 bytes, the loop never
  meets the capacity check, a response that left the budget is within the capacity,
  and one that did not is within the budget again for the next poll; so the callback of
  readdir returns.
\<close>

theorem response_buffer_safety:
  "capacity = 34000
   \<and> check (4 + (if rq_count request > 32768 then 32768 else rq_count request))
        (start (response\<lparr> rs_type := Some DATA \<rparr>))
   \<and> (ss_fs s \<and> rq_type request = READ \<and> rq_length request \<le> 66000 \<and> rq_decodes request \<longrightarrow>
        (\<exists>s'. processRequest_try s request response (Some hr) = Proceed s'))
   \<and> (n \<le> 32768 \<longrightarrow>
        fits (skip n (writeInt32 (int n) (start (response\<lparr> rs_type := Some DATA \<rparr>))))
        \<and> rs_position (skip n (writeInt32 (int n) (start (response\<lparr> rs_type := Some DATA \<rparr>)))) \<le> 32781)
   \<and> rs_position (writeInt32 0 (start (response\<lparr> rs_type := Some NAME \<rparr>))) \<le> 28672
   \<and> (rs_position r \<le> 28672 \<and> (\<forall>item \<in> set list. item_bytes item \<le> 5328) \<longrightarrow>
        write_items r c list \<noteq> Overflowed
        \<and> (\<forall>r' c' rest. write_items r c list = Exceeded r' c' rest \<longrightarrow> rs_position r' \<le> capacity)
        \<and> (\<forall>r' c'. write_items r c list = Drained r' c' \<longrightarrow> rs_position r' \<le> 28672)
        \<and> (res_err res = None \<and> res_items res = Some list \<longrightarrow>
             (\<exists>t'. resume t (K_readdir r hr c) res = Returned t')))"
proof -
  have chk: "check (4 + (if rq_count request > 32768 then 32768 else rq_count request))
        (start (response\<lparr> rs_type := Some DATA \<rparr>))"
    by (simp add: check_def start_def capacity_def split: option.split)
  have hdl: "\<exists>s'. processRequest_try s request response (Some hr) = Proceed s'"
    if "ss_fs s \<and> rq_type request = READ \<and> rq_length request \<le> 66000 \<and> rq_decodes request"
    using that chk by (simp add: processRequest_try_def Let_def)
  have dat: "fits (skip n (writeInt32 (int n) (start (response\<lparr> rs_type := Some DATA \<rparr>))))
        \<and> rs_position (skip n (writeInt32 (int n) (start (response\<lparr> rs_type := Some DATA \<rparr>)))) \<le> 32781"
    if "n \<le> 32768"
    using that by (simp add: writer_defs split: option.split)
  have nam: "rs_position (writeInt32 0 (start (response\<lparr> rs_type := Some NAME \<rparr>))) \<le> 28672"
    by (simp add: writer_defs split: option.split)
  have cb: "\<exists>t'. resume t (K_readdir r hr c) res = Returned t'"
    if "rs_position r \<le> 28672 \<and> (\<forall>item \<in> set list. item_bytes item \<le> 5328)"
      and "res_err res = None \<and> res_items res = Some list"
  proof -
    from that(1) have "write_items r c list \<noteq> Overflowed"
      using write_items_within [of r list c] by blast
    with that(2) show ?thesis
      by (cases "write_items r c list") (simp_all add: sendIfError_def readdir_next_def)
  qed
  show ?thesis
    using chk hdl dat nam cb write_items_within [of r list c]
    by (simp add: capacity_def)
qed

theorem response_buffer_safety_witness:
  "(\<exists>s'. processRequest_try idle_session ((plain_request READ 2)\<lparr> rq_count := 100000 \<rparr>)
       (busy_response 2) (Some 0) = Proceed s')
   \<and> fits (skip 32768 (writeInt32 32768 (start ((busy_response 2)\<lparr> rs_type := Some DATA \<rparr>))))
   \<and> write_items name_response 0 [named_item 100, named_item 5315] \<noteq> Overflowed
   \<and> (\<exists>t'. resume locked_session (K_readdir name_response 0 0)
             (items_result [named_item 100, named_item 5315]) = Returned t')"
proof -
  note th = response_buffer_safety [where request = "(plain_request READ 2)\<lparr> rq_count := 100000 \<rparr>"
      and response = "busy_response 2" and s = idle_session and hr = 0 and n = 32768
      and r = name_response and list = "[named_item 100, named_item 5315]" and c = 0
      and res = "items_result [named_item 100, named_item 5315]" and t = locked_session]
  have a: "ss_fs idle_session" "rq_type ((plain_request READ 2)\<lparr> rq_count := 100000 \<rparr>) = READ"
    "rq_length ((plain_request READ 2)\<lparr> rq_count := 100000 \<rparr>) \<le> 66000"
    "rq_decodes ((plain_request READ 2)\<lparr> rq_count := 100000 \<rparr>)"
    by (simp_all add: example_defs)
  have b: "rs_position name_response \<le> 28672"
    "\<forall>item \<in> set [named_item 100, named_item 5315]. item_bytes item \<le> 5328"
    by (simp_all add: example_defs writer_defs item_bytes_def attr_bytes_def)
  have c: "res_err (items_result [named_item 100, named_item 5315]) = None"
    "res_items (items_result [named_item 100, named_item 5315]) = Some [named_item 100, named_item 5315]"
    by (simp_all add: items_result_def)
  from th a b c show ?thesis by simp
qed

section \<open>The handle table\<close>

lemma slot_at_range: "1 \<le> slot_at h k \<and> slot_at h k \<le> MAX_HANDLE_COUNT"
  by (simp add: slot_at_def MAX_HANDLE_COUNT_def)

lemma slot_at_0: "1 \<le> h \<Longrightarrow> h \<le> MAX_HANDLE_COUNT \<Longrightarrow> slot_at h 0 = h"
  by (simp add: slot_at_def MAX_HANDLE_COUNT_def)

lemma slot_at_next: "slot_at ((h mod MAX_HANDLE_COUNT) + 1) k = slot_at h (Suc k)"
proof -
  have "(h mod MAX_HANDLE_COUNT + int k) mod MAX_HANDLE_COUNT = (h + int k) mod MAX_HANDLE_COUNT"
    by (rule mod_add_left_eq)
  then show ?thesis by (simp add: slot_at_def add.commute)
qed

text \<open>
  Allocation: the scan from a slot \<open>h\<close> of the table finds nothing when the \<open>n\<close> slots
  it looks at are all taken, and then the session is unchanged; otherwise it takes the
  first free one, gives it a new record, and moves the cursor to the slot behind it.
\<close>

lemma createHandleInfo_scan_full:
  "\<forall>k<n. ss_handles s (slot_at h k) \<noteq> None \<Longrightarrow> 1 \<le> h \<Longrightarrow> h \<le> MAX_HANDLE_COUNT \<Longrightarrow>
   createHandleInfo_scan s h n = (None, s)"
proof (induction n arbitrary: h)
  case 0
  then show ?case by simp
next
  case (Suc n)
  from Suc.prems have here: "ss_handles s h \<noteq> None"
    using slot_at_0 [of h] by (metis zero_less_Suc)
  have rest: "\<forall>k<n. ss_handles s (slot_at ((h mod MAX_HANDLE_COUNT) + 1) k) \<noteq> None"
    using Suc.prems(1) by (simp add: slot_at_next)
  have range: "1 \<le> (h mod MAX_HANDLE_COUNT) + 1" "(h mod MAX_HANDLE_COUNT) + 1 \<le> MAX_HANDLE_COUNT"
    by (simp_all add: MAX_HANDLE_COUNT_def)
  from here Suc.IH [OF rest range] show ?case
    by (auto simp: Let_def)
qed

lemma createHandleInfo_scan_first_free:
  "k < n \<Longrightarrow> ss_handles s (slot_at h k) = None \<Longrightarrow> \<forall>j<k. ss_handles s (slot_at h j) \<noteq> None \<Longrightarrow>
   1 \<le> h \<Longrightarrow> h \<le> MAX_HANDLE_COUNT \<Longrightarrow>
   createHandleInfo_scan s h n =
     (Some (length (ss_store s)),
      s\<lparr> ss_store := ss_store s @ [new_SftpHandleInfo (slot_at h k)],
         ss_handles := (ss_handles s)(slot_at h k := Some (length (ss_store s))),
         ss_nextHandle := slot_at h (Suc k) \<rparr>)"
proof (induction n arbitrary: h k)
  case 0
  then show ?case by simp
next
  case (Suc n)
  have range: "1 \<le> (h mod MAX_HANDLE_COUNT) + 1" "(h mod MAX_HANDLE_COUNT) + 1 \<le> MAX_HANDLE_COUNT"
    by (simp_all add: MAX_HANDLE_COUNT_def)
  show ?case
  proof (cases k)
    case 0
    have "slot_at h (Suc 0) = (h mod MAX_HANDLE_COUNT) + 1"
      using slot_at_next [of h 0] slot_at_0 [OF range] by simp
    with 0 Suc.prems show ?thesis
      by (simp add: slot_at_0 Let_def) (simp add: fun_upd_def)
  next
    case (Suc j)
    with Suc.prems(3) have here: "ss_handles s h \<noteq> None"
      using slot_at_0 [of h] Suc.prems(4,5) by (metis zero_less_Suc)
    have a: "j < n" using Suc Suc.prems(1) by simp
    have b: "ss_handles s (slot_at ((h mod MAX_HANDLE_COUNT) + 1) j) = None"
      using Suc Suc.prems(2) by (simp add: slot_at_next)
    have c: "\<forall>i<j. ss_handles s (slot_at ((h mod MAX_HANDLE_COUNT) + 1) i) \<noteq> None"
      using Suc Suc.prems(3) by (simp add: slot_at_next)
    from here Suc.IH [OF a b c range] Suc show ?thesis
      by (auto simp: Let_def slot_at_next)
  qed
qed

lemma createHandleInfo_first_free:
  assumes "1 \<le> ss_nextHandle s" and "ss_nextHandle s \<le> MAX_HANDLE_COUNT"
    and "k < 512" and "ss_handles s (slot_at (ss_nextHandle s) k) = None"
    and "\<forall>j<k. ss_handles s (slot_at (ss_nextHandle s) j) \<noteq> None"
  shows "createHandleInfo s =
     (Some (length (ss_store s)),
      s\<lparr> ss_store := ss_store s @ [new_SftpHandleInfo (slot_at (ss_nextHandle s) k)],
         ss_handles := (ss_handles s)(slot_at (ss_nextHandle s) k := Some (length (ss_store s))),
         ss_nextHandle := slot_at (ss_nextHandle s) (Suc k) \<rparr>)"
  unfolding createHandleInfo_def
  using assms by (intro createHandleInfo_scan_first_free) (simp_all add: MAX_HANDLE_COUNT_def)

lemma createHandleInfo_full:
  assumes "1 \<le> ss_nextHandle s" and "ss_nextHandle s \<le> MAX_HANDLE_COUNT"
    and "\<forall>h. 1 \<le> h \<and> h \<le> MAX_HANDLE_COUNT \<longrightarrow> ss_handles s h \<noteq> None"
  shows "createHandleInfo s = (None, s)"
  unfolding createHandleInfo_def
  using assms slot_at_range by (intro createHandleInfo_scan_full) simp_all

lemma open_table_full:
  assumes "1 \<le> ss_nextHandle s" and "ss_nextHandle s \<le> MAX_HANDLE_COUNT"
    and "\<forall>h. 1 \<le> h \<and> h \<le> MAX_HANDLE_COUNT \<longrightarrow> ss_handles s h \<noteq> None"
    and "ss_fs s" and "rq_type request = OPEN \<or> rq_type request = OPENDIR"
    and "rq_length request \<le> 66000" and "rq_decodes request" and "rq_modes request \<noteq> []"
  shows "process s request =
           s\<lparr> ss_sent := ss_sent s @
                [Packet (Some STATUS) (Some (id_field (rq_id request))) 42
                   [WCode FAILURE, WString ''Too many open handles'', WString []]] \<rparr>"
  using assms(4-8) createHandleInfo_full [OF assms(1-3)]
  by (auto simp: process_def handle_bound_def processRequest.simps processRequest_try_def
      send_unbound new_SftpResponse_def writer_defs channel_send_def)

text \<open>
  C8. The index in a HANDLE reply is read from the handle record when the backend's
  open completes. An OPEN allocates index 1; a CLOSE for handle 1 that arrives before
  the open has completed finds the record in the table and turns it into a tombstone;
  when the open then succeeds, the HANDLE reply carries the index -1.
\<close>

theorem handle_index_tombstone:
  "ss_sent (run new_session
      [Message (plain_request OPEN 1), Message (plain_request CLOSE 2), Completion 0 ok_result]) =
     [Packet (Some HANDLE) (Some 1) 17 [WInt32 4, WInt32 (- 1)]]"
  by (simp add: example_defs session_defs writer_defs)

section \<open>Serialization per handle\<close>

lemma inflight_simps [simp]:
  "inflight (channel_send s p) hr = inflight s hr"
  "inflight (update_info r f s) hr = inflight s hr"
  "inflight (backend c k s) hr = inflight s hr + (if callback_handleInfo k = Some hr then 1 else 0)"
  "inflight (s\<lparr> ss_handles := hs \<rparr>) hr = inflight s hr"
  by (simp_all add: inflight_def channel_send_def update_info_def backend_def)

lemma store_simps [simp]:
  "ss_store (channel_send s p) = ss_store s"
  "ss_store (backend c k s) = ss_store s"
  "length (ss_store (update_info r f s)) = length (ss_store s)"
  "info (channel_send s p) hr = info s hr"
  "info (backend c k s) hr = info s hr"
  "info (s\<lparr> ss_handles := hs \<rparr>) hr = info s hr"
  by (simp_all add: channel_send_def update_info_def backend_def info_def)

lemma misc_simps [simp]:
  "ss_pending (channel_send s p) = ss_pending s"
  "ss_pending (update_info r f s) = ss_pending s"
  "ss_pending (backend c k s) = ss_pending s @ [(c, k)]"
  "ss_handles (channel_send s p) = ss_handles s"
  "ss_handles (update_info r f s) = ss_handles s"
  "ss_handles (backend c k s) = ss_handles s"
  "ss_fs (channel_send s p) = ss_fs s"
  "ss_fs (update_info r f s) = ss_fs s"
  "ss_fs (backend c k s) = ss_fs s"
  by (simp_all add: channel_send_def update_info_def backend_def)

lemma inflight_outside:
  "refs_ok s \<Longrightarrow> length (ss_store s) \<le> hr \<Longrightarrow> inflight s hr = 0"
  by (fastforce simp: refs_ok_def inflight_def filter_empty_conv)

lemma keeps_refl: "keeps s s"
  by (simp add: keeps_def)

lemma keeps_trans: "keeps s s' \<Longrightarrow> keeps s' s'' \<Longrightarrow> keeps s s''"
proof -
  assume a: "keeps s s'" and b: "keeps s' s''"
  have l1: "length (ss_store s) \<le> length (ss_store s')" and l2: "length (ss_store s') \<le> length (ss_store s'')"
    using a b by (simp_all add: keeps_def)
  have old: "hi_locked (info s'' hr) = hi_locked (info s hr) \<and> hi_tasks (info s'' hr) = hi_tasks (info s hr)"
    if "hr < length (ss_store s)" for hr
  proof -
    from that l1 have "hr < length (ss_store s')" by simp
    with a b that show ?thesis by (simp add: keeps_def)
  qed
  have new: "\<not> hi_locked (info s'' hr) \<and> hi_tasks (info s'' hr) = []"
    if "hr < length (ss_store s'')" and "\<not> hr < length (ss_store s)" for hr
  proof (cases "hr < length (ss_store s')")
    case True
    with a b that show ?thesis by (simp add: keeps_def)
  next
    case False
    with b that show ?thesis by (simp add: keeps_def)
  qed
  have pend: "ss_pending s'' = ss_pending s" using a b by (simp add: keeps_def)
  have tab: "(\<forall>h hr. ss_handles s h = Some hr \<longrightarrow> hr < length (ss_store s)) \<longrightarrow>
           (\<forall>h hr. ss_handles s'' h = Some hr \<longrightarrow> hr < length (ss_store s''))"
    using a b unfolding keeps_def by blast
  show "keeps s s''"
    unfolding keeps_def using l1 l2 old new pend tab by auto
qed

lemma keeps_inflight: "keeps s s' \<Longrightarrow> inflight s' hr = inflight s hr"
  by (simp add: keeps_def inflight_def)

lemma keeps_refs_ok: "keeps s s' \<Longrightarrow> refs_ok s \<Longrightarrow> refs_ok s'"
proof -
  assume k: "keeps s s'" and r: "refs_ok s"
  have len: "length (ss_store s) \<le> length (ss_store s')" using k by (simp add: keeps_def)
  have tasks: "hi_tasks (info s' x) = (if x < length (ss_store s) then hi_tasks (info s x) else [])"
    if "x < length (ss_store s')" for x
    using k that by (simp add: keeps_def)
  have pend: "ss_pending s' = ss_pending s" using k by (simp add: keeps_def)
  show "refs_ok s'"
    unfolding refs_ok_def
  proof (intro conjI ballI allI impI)
    fix ck hr assume "ck \<in> set (ss_pending s')" "callback_handleInfo (snd ck) = Some hr"
    with r pend have "hr < length (ss_store s)" unfolding refs_ok_def by auto
    with len show "hr < length (ss_store s')" by simp
  next
    fix x t assume a: "x < length (ss_store s')" "t \<in> set (hi_tasks (info s' x))"
    with tasks [OF a(1)] have b: "x < length (ss_store s)" "t \<in> set (hi_tasks (info s x))"
      by (auto split: if_splits)
    with r show "rs_handleInfo (t_response t) = Some x" "t_handleInfo t = x"
      unfolding refs_ok_def by blast+
  next
    fix h hr assume "ss_handles s' h = Some hr"
    with k r show "hr < length (ss_store s')"
      unfolding keeps_def refs_ok_def by blast
  qed
qed

lemma keeps_serial: "keeps s s' \<Longrightarrow> refs_ok s \<Longrightarrow> serial s \<Longrightarrow> serial s'"
proof -
  assume k: "keeps s s'" and r: "refs_ok s" and ser: "serial s"
  show "serial s'"
    unfolding serial_def
  proof (intro allI impI)
    fix hr assume "hr < length (ss_store s')"
    show "inflight s' hr \<le> 1 \<and> (\<not> hi_locked (info s' hr) \<longrightarrow> inflight s' hr = 0 \<and> hi_tasks (info s' hr) = [])"
    proof (cases "hr < length (ss_store s)")
      case True
      with k ser show ?thesis
        by (simp add: keeps_inflight [OF k] keeps_def serial_def)
    next
      case False
      with k r \<open>hr < length (ss_store s')\<close> show ?thesis
        by (simp add: keeps_inflight [OF k] inflight_outside keeps_def not_less)
    qed
  qed
qed

lemma keeps_held: "keeps s s' \<Longrightarrow> held s x \<Longrightarrow> held s' x"
  by (auto simp: held_def keeps_def keeps_inflight split: option.splits)

lemma keeps_update_info:
  "(\<And>i. hi_locked (f i) = hi_locked i \<and> hi_tasks (f i) = hi_tasks i) \<Longrightarrow> keeps s (update_info hr f s)"
  by (simp add: keeps_def info_update_info)

lemma keeps_channel_send: "keeps s (channel_send s p)"
  by (simp add: keeps_def)

lemma keeps_createHandleInfo_scan: "keeps s (snd (createHandleInfo_scan s h n))"
proof (induction n arbitrary: h)
  case 0
  then show ?case by (simp add: keeps_refl)
next
  case (Suc n)
  show ?case
  proof (cases "ss_handles s h")
    case None
    then show ?thesis
      by (auto simp: Let_def keeps_def info_def nth_append new_SftpHandleInfo_def less_Suc_eq)
  next
    case (Some a)
    with Suc show ?thesis by (simp add: Let_def)
  qed
qed

lemma keeps_createHandleInfo: "createHandleInfo s = (x, s') \<Longrightarrow> keeps s s'"
  using keeps_createHandleInfo_scan [of s "ss_nextHandle s" "nat MAX_HANDLE_COUNT"]
  by (simp add: createHandleInfo_def)

lemma keeps_deleteHandleInfo:
  "deleteHandleInfo s hr = Returned s' \<or> deleteHandleInfo s hr = Threw s' \<Longrightarrow> keeps s s'"
  by (auto simp: deleteHandleInfo_def Let_def keeps_def info_update_info
      split: if_splits option.splits)


lemma write_items_handleInfo:
  "write_items r c list = Exceeded r' c' rest \<or> write_items r c list = Drained r' c' \<Longrightarrow>
   rs_handleInfo r' = rs_handleInfo r"
  by (induction list arbitrary: r c) (auto simp: Let_def split: if_splits)

lemma startedI: "keeps s s1 \<Longrightarrow> callback_handleInfo k = x \<Longrightarrow> started s x (backend c k s1)"
  unfolding started_def by blast

lemma readdir_next_frame:
  "case readdir_next s r hr c items of
     Reply s' r' \<Rightarrow> keeps s s' \<and> rs_handleInfo r' = rs_handleInfo r
   | Raise s' \<Rightarrow> keeps s s'
   | Proceed s' \<Rightarrow> started s (rs_handleInfo r) s'"
proof (cases items)
  case None
  then show ?thesis by (simp add: readdir_next_def keeps_refl)
next
  case (Some list)
  show ?thesis
  proof (cases "write_items r c list")
    case Overflowed
    with Some show ?thesis by (simp add: readdir_next_def keeps_refl)
  next
    case (Exceeded r' c' rest)
    with Some write_items_handleInfo [of r c list r' c' rest] show ?thesis
      by (simp add: readdir_next_def keeps_update_info)
  next
    case (Drained r' c')
    with Some write_items_handleInfo [of r c list r' c'] show ?thesis
      by (auto simp: readdir_next_def readdir_def intro!: startedI keeps_refl)
  qed
qed

lemma processRequest_try_frame:
  "case processRequest_try s rq rs hi of
     Reply s' r \<Rightarrow> keeps s s' \<and> rs_handleInfo r = rs_handleInfo rs
   | Raise s' \<Rightarrow> keeps s s'
   | Proceed s' \<Rightarrow> started s (rs_handleInfo rs) s'"
proof (cases "rq_length rq > 66000")
  case True
  then show ?thesis by (simp add: processRequest_try_def keeps_refl)
next
  case False
  show ?thesis
  proof (cases "rq_type rq")
    case OPEN
    with False show ?thesis
      by (auto simp: processRequest_try_def openFile_def keeps_refl
          split: prod.splits option.splits list.splits
          intro!: startedI dest: keeps_createHandleInfo)
  next
    case CLOSE
    with False show ?thesis
      by (auto simp: processRequest_try_def keeps_refl split: option.splits attempt.splits
          intro!: startedI keeps_deleteHandleInfo)
  next
    case OPENDIR
    with False show ?thesis
      by (auto simp: processRequest_try_def keeps_refl split: prod.splits option.splits
          intro!: startedI dest: keeps_createHandleInfo)
  next
    case READDIR
    have upd: "keeps s (update_info hr (\<lambda>i. i\<lparr> hi_items := Some [] \<rparr>) s)" for hr
      by (simp add: keeps_update_info)
    show ?thesis
    proof (cases hi)
      case None
      with READDIR False show ?thesis by (simp add: processRequest_try_def keeps_refl)
    next
      case (Some hr)
      let ?r = "writeInt32 0 (start (rs\<lparr> rs_type := Some NAME \<rparr>))"
      let ?s = "update_info hr (\<lambda>i. i\<lparr> hi_items := Some [] \<rparr>) s"
      show ?thesis
      proof (cases "\<exists>previous. hi_items (info s hr) = Some previous \<and> previous \<noteq> []")
        case True
        then obtain previous where p: "hi_items (info s hr) = Some previous" "previous \<noteq> []"
          by blast
        have eq: "processRequest_try s rq rs hi = readdir_next ?s ?r hr 0 (Some previous)"
          using READDIR False Some p by (simp add: processRequest_try_def)
        from readdir_next_frame [where s = ?s and r = ?r and hr = hr and c = 0
            and items = "Some previous"] upd [of hr]
        show ?thesis
          unfolding eq
          by (cases "readdir_next ?s ?r hr 0 (Some previous)")
            (auto simp: started_def intro: keeps_trans)
      next
        case False
        then have "processRequest_try s rq rs hi = Proceed (readdir s ?r hr 0)"
          using READDIR \<open>\<not> 66000 < rq_length rq\<close> Some
          by (auto simp: processRequest_try_def Let_def split: option.splits)
        then show ?thesis
          by (auto simp: readdir_def intro!: startedI keeps_refl)
      qed
    qed
  qed (use False in \<open>auto simp: processRequest_try_def Let_def keeps_refl split: option.splits
      intro!: startedI\<close>)
qed

lemma started_invariant:
  assumes "refs_ok s" and "serial s" and "held s x" and "started s x s'"
  shows "refs_ok s' \<and> serial s'"
proof -
  from assms(4) obtain s1 c k where k: "keeps s s1" and s': "s' = backend c k s1"
    and x: "callback_handleInfo k = x"
    unfolding started_def by blast
  have r1: "refs_ok s1" and ser1: "serial s1" and h1: "held s1 x"
    using k assms(1-3) by (simp_all add: keeps_refs_ok keeps_serial keeps_held)
  have "refs_ok (backend c k s1)"
    using r1 h1 x unfolding refs_ok_def held_def
    by (auto split: option.splits)
  moreover have "serial (backend c k s1)"
    using ser1 h1 x unfolding serial_def held_def
    by (auto split: option.splits)
  ultimately show ?thesis by (simp add: s')
qed

lemma unlock_invariant:
  assumes "refs_ok s" and "serial s" and "held s (Some hr)" and "hi_tasks (info s hr) = []"
  shows "refs_ok (update_info hr (\<lambda>i. i\<lparr> hi_locked := False \<rparr>) s)
    \<and> serial (update_info hr (\<lambda>i. i\<lparr> hi_locked := False \<rparr>) s)"
  using assms unfolding refs_ok_def serial_def held_def
  by (auto simp: info_update_info)

lemma pop_invariant:
  assumes "refs_ok s" and "serial s" and "held s (Some hr)" and "hi_tasks (info s hr) = t # ts"
  shows "refs_ok (update_info hr (\<lambda>i. i\<lparr> hi_tasks := ts \<rparr>) s)
    \<and> serial (update_info hr (\<lambda>i. i\<lparr> hi_tasks := ts \<rparr>) s)
    \<and> held (update_info hr (\<lambda>i. i\<lparr> hi_tasks := ts \<rparr>) s) (Some hr)
    \<and> rs_handleInfo (t_response t) = Some hr \<and> t_handleInfo t = hr"
  using assms unfolding refs_ok_def serial_def held_def
  by (auto simp: info_update_info)

lemma send_invariant_aux:
  "(refs_ok s \<and> serial s \<and> held s (rs_handleInfo response) \<longrightarrow>
      refs_ok (send s response) \<and> serial (send s response))"
  "(refs_ok s \<and> serial s \<and> held s (Some hr) \<longrightarrow>
      refs_ok (processNext s hr) \<and> serial (processNext s hr))"
  "(refs_ok s \<and> serial s \<and> held s handleInfo \<and> rs_handleInfo response = handleInfo \<longrightarrow>
      refs_ok (processRequest s request response handleInfo)
      \<and> serial (processRequest s request response handleInfo))"
proof (induction s response and s hr and s request response handleInfo
    rule: send_processNext_processRequest.induct)
  case (1 s response)
  show ?case
  proof (intro impI)
    assume a: "refs_ok s \<and> serial s \<and> held s (rs_handleInfo response)"
    let ?s1 = "channel_send s (finish response)"
    have k: "keeps s ?s1" by (rule keeps_channel_send)
    have inv1: "refs_ok ?s1 \<and> serial ?s1 \<and> held ?s1 (rs_handleInfo response)"
      using a k by (simp add: keeps_refs_ok keeps_serial keeps_held)
    show "refs_ok (send s response) \<and> serial (send s response)"
    proof (cases "rs_handleInfo response")
      case None
      with inv1 show ?thesis by (simp add: send.simps)
    next
      case (Some hr)
      with inv1 "1.IH" [OF refl Some] show ?thesis by (simp add: send.simps)
    qed
  qed
next
  case (2 s hr)
  show ?case
  proof (intro impI)
    assume a: "refs_ok s \<and> serial s \<and> held s (Some hr)"
    then have len: "hr < length (ss_store s)" by (simp add: held_def)
    show "refs_ok (processNext s hr) \<and> serial (processNext s hr)"
    proof (cases "hi_tasks (info s hr)")
      case Nil
      with a len unlock_invariant [of s hr] show ?thesis
        by (simp add: processNext.simps)
    next
      case (Cons t ts)
      let ?s1 = "update_info hr (\<lambda>i. i\<lparr> hi_tasks := ts \<rparr>) s"
      from a Cons pop_invariant [of s hr t ts]
      have p: "refs_ok ?s1" "serial ?s1" "held ?s1 (Some hr)"
        "rs_handleInfo (t_response t) = Some hr" "t_handleInfo t = hr"
        by simp_all
      show ?thesis
      proof (cases "hi_h (info ?s1 (t_handleInfo t)) < 0")
        case True
        with "2.IH"(1) [OF len Cons refl True] p len Cons show ?thesis
          by (simp add: processNext.simps)
      next
        case False
        with "2.IH"(2) [OF len Cons refl False] p len Cons show ?thesis
          by (simp add: processNext.simps)
      qed
    qed
  qed
next
  case (3 s request response handleInfo)
  show ?case
  proof (intro impI)
    assume a: "refs_ok s \<and> serial s \<and> held s handleInfo \<and> rs_handleInfo response = handleInfo"
    show "refs_ok (processRequest s request response handleInfo)
      \<and> serial (processRequest s request response handleInfo)"
    proof (cases "ss_fs s")
      case False
      with a show ?thesis by (simp add: processRequest.simps)
    next
      case True
      note fr = processRequest_try_frame [where s = s and rq = request and rs = response
          and hi = handleInfo]
      show ?thesis
      proof (cases "processRequest_try s request response handleInfo")
        case (Reply s' r)
        with fr have k: "keeps s s'" and h: "rs_handleInfo r = rs_handleInfo response" by simp_all
        have "refs_ok s' \<and> serial s' \<and> held s' (rs_handleInfo r)"
          using a k h by (simp add: keeps_refs_ok keeps_serial keeps_held)
        with "3.IH"(1) [OF _ Reply] True Reply show ?thesis
          by (simp add: processRequest.simps)
      next
        case (Proceed s')
        with fr have "started s (rs_handleInfo response) s'" by simp
        with a started_invariant [of s "rs_handleInfo response" s'] True Proceed show ?thesis
          by (simp add: processRequest.simps)
      next
        case (Raise s')
        with fr have k: "keeps s s'" by simp
        have "refs_ok s' \<and> serial s'
            \<and> held s' (rs_handleInfo (SftpStatus_write response FAILURE ''Internal server error''))"
          using a k by (simp add: keeps_refs_ok keeps_serial keeps_held)
        with "3.IH"(2) [OF _ Raise] True Raise show ?thesis
          by (simp add: processRequest.simps)
      qed
    qed
  qed
qed

lemma send_invariant:
  "refs_ok s \<Longrightarrow> serial s \<Longrightarrow> held s (rs_handleInfo response) \<Longrightarrow>
   refs_ok (send s response) \<and> serial (send s response)"
  using send_invariant_aux(1) by blast

lemma processRequest_invariant:
  "refs_ok s \<Longrightarrow> serial s \<Longrightarrow> held s handleInfo \<Longrightarrow> rs_handleInfo response = handleInfo \<Longrightarrow>
   refs_ok (processRequest s request response handleInfo)
   \<and> serial (processRequest s request response handleInfo)"
  using send_invariant_aux(3) by blast

lemma process_invariant:
  assumes "refs_ok s" and "serial s"
  shows "refs_ok (process s request) \<and> serial (process s request)"
proof (cases "rq_type request = INIT")
  case True
  with assms send_invariant [of s "writeInt32 3 (start (new_SftpResponse\<lparr> rs_type := Some VERSION \<rparr>))"]
  show ?thesis
    by (simp add: process_def held_def new_SftpResponse_def)
next
  case False
  let ?rs = "new_SftpResponse\<lparr> rs_id := rq_id request \<rparr>"
  have unbound: "rs_handleInfo ?rs = None" by (simp add: new_SftpResponse_def)
  show ?thesis
  proof (cases "handle_bound (rq_type request)")
    case nb: False
    with False assms processRequest_invariant [of s None ?rs request] unbound show ?thesis
      by (simp add: process_def held_def)
  next
    case hb: True
    show ?thesis
    proof (cases "readHandleInfo s request")
      case None
      with False hb assms send_invariant [of s "SftpStatus_write ?rs FAILURE ''Invalid handle''"] unbound
      show ?thesis
        by (simp add: process_def sendStatus_def held_def)
    next
      case (Some hr)
      then have len: "hr < length (ss_store s)"
        using assms(1) by (auto simp: readHandleInfo_def refs_ok_def split: if_splits)
      let ?rs' = "?rs\<lparr> rs_handleInfo := Some hr \<rparr>"
      show ?thesis
      proof (cases "hi_locked (info s hr)")
        case False
        let ?s1 = "update_info hr (\<lambda>i. i\<lparr> hi_locked := True \<rparr>) s"
        have "refs_ok ?s1" "serial ?s1" "held ?s1 (Some hr)"
          using assms len False unfolding refs_ok_def serial_def held_def
          by (auto simp: info_update_info)
        with processRequest_invariant [of ?s1 "Some hr" ?rs' request]
        have "refs_ok (processRequest ?s1 request ?rs' (Some hr))
          \<and> serial (processRequest ?s1 request ?rs' (Some hr))"
          by simp
        with \<open>rq_type request \<noteq> INIT\<close> hb Some False show ?thesis
          by (simp add: process_def)
      next
        case True
        let ?s1 = "update_info hr (\<lambda>i. i\<lparr> hi_tasks := hi_tasks i @ [Task request ?rs' hr] \<rparr>) s"
        have "refs_ok ?s1" "serial ?s1"
          using assms len True unfolding refs_ok_def serial_def
          by (auto simp: info_update_info)
        with \<open>rq_type request \<noteq> INIT\<close> hb Some True show ?thesis
          by (simp add: process_def)
      qed
    qed
  qed
qed

lemma end_session_invariant:
  assumes "refs_ok s" and "serial s"
  shows "refs_ok (end_session s) \<and> serial (end_session s)"
proof -
  have infl: "inflight (end_session s) hr = inflight s hr" for hr
    by (simp add: end_session_def Let_def inflight_def o_def)
  have st: "ss_store (end_session s) = ss_store s" "ss_handles (end_session s) = ss_handles s"
    by (simp_all add: end_session_def Let_def)
  have inf: "info (end_session s) hr = info s hr" for hr
    by (simp add: info_def st)
  have pend: "\<forall>ck \<in> set (ss_pending (end_session s)). ck \<in> set (ss_pending s) \<or> snd ck = K_discard"
    by (auto simp: end_session_def Let_def)
  have "refs_ok (end_session s)"
    using assms(1) pend unfolding refs_ok_def
    by (auto simp: st inf)
  moreover have "serial (end_session s)"
    using assms(2) unfolding serial_def by (simp add: st inf infl)
  ultimately show ?thesis by simp
qed

lemma inflight_remove:
  assumes "n < length (ss_pending s)"
  shows "inflight (s\<lparr> ss_pending := take n (ss_pending s) @ drop (Suc n) (ss_pending s) \<rparr>) hr
         + (if callback_handleInfo (snd (ss_pending s ! n)) = Some hr then 1 else 0) = inflight s hr"
proof -
  have "ss_pending s = take n (ss_pending s) @ ss_pending s ! n # drop (Suc n) (ss_pending s)"
    using assms by (rule id_take_nth_drop)
  then have "inflight s hr =
      length (filter (\<lambda>ck. callback_handleInfo (snd ck) = Some hr)
        (take n (ss_pending s) @ ss_pending s ! n # drop (Suc n) (ss_pending s)))"
    by (simp add: inflight_def)
  then show ?thesis by (simp add: inflight_def)
qed

lemma remove_invariant:
  assumes "refs_ok s" and "serial s" and "n < length (ss_pending s)"
    and "s1 = s\<lparr> ss_pending := take n (ss_pending s) @ drop (Suc n) (ss_pending s) \<rparr>"
  shows "refs_ok s1 \<and> serial s1 \<and> held s1 (callback_handleInfo (snd (ss_pending s ! n)))"
proof -
  note rm = inflight_remove [OF assms(3)]
  have st: "ss_store s1 = ss_store s" "ss_handles s1 = ss_handles s"
    and inf: "\<And>hr. info s1 hr = info s hr"
    by (simp_all add: assms(4) info_def)
  have sub: "set (ss_pending s1) \<subseteq> set (ss_pending s)"
    by (auto simp: assms(4) dest: in_set_takeD in_set_dropD)
  have le: "inflight s1 hr \<le> inflight s hr" for hr
    using rm [of hr] by (simp add: assms(4) split: if_splits)
  have r: "refs_ok s1"
    using assms(1) sub unfolding refs_ok_def by (auto simp: st inf)
  have ser: "serial s1"
    unfolding serial_def
  proof (intro allI impI)
    fix hr assume "hr < length (ss_store s1)"
    with assms(2) le [of hr] show "inflight s1 hr \<le> 1
      \<and> (\<not> hi_locked (info s1 hr) \<longrightarrow> inflight s1 hr = 0 \<and> hi_tasks (info s1 hr) = [])"
      by (auto simp: serial_def st inf)
  qed
  have "held s1 (callback_handleInfo (snd (ss_pending s ! n)))"
  proof (cases "callback_handleInfo (snd (ss_pending s ! n))")
    case None
    then show ?thesis by (simp add: held_def)
  next
    case (Some hr)
    have mem: "ss_pending s ! n \<in> set (ss_pending s)"
      using assms(3) by simp
    with assms(1) Some have len: "hr < length (ss_store s)"
      unfolding refs_ok_def by blast
    from rm [of hr] Some have one: "inflight s1 hr + 1 = inflight s hr"
      by (simp add: assms(4))
    with assms(2) len have "inflight s1 hr = 0" "hi_locked (info s hr)"
      by (auto simp: serial_def)
    with Some len show ?thesis by (simp add: held_def st inf)
  qed
  with r ser show ?thesis by simp
qed


lemma sendError_invariant:
  assumes "refs_ok s" and "serial s" and "held s (rs_handleInfo response)"
    and "sendError s response err isFatal = Returned s' \<or> sendError s response err isFatal = Threw s'"
  shows "refs_ok s' \<and> serial s'"
proof -
  define cm where "cm =
    (if \<not> isFatal then (let error = SftpException err in (exc_code error, exc_message error))
     else (FAILURE, ''Internal server error''))"
  let ?r = "SftpStatus_write response (fst cm) (snd cm)"
  from assms(4) have "s' = s \<or> s' = send s ?r"
    by (auto simp: sendError_def Let_def cm_def split_beta split: if_splits)
  with assms(1-3) send_invariant [of s ?r] show ?thesis by auto
qed

lemma keeps_invariant:
  "keeps s s' \<Longrightarrow> refs_ok s \<and> serial s \<Longrightarrow> refs_ok s' \<and> serial s'"
  by (simp add: keeps_refs_ok keeps_serial)

lemma sendHandle_invariant:
  assumes "refs_ok s" and "serial s" and "held s (rs_handleInfo response)"
  shows "refs_ok (sendHandle (update_info hr (\<lambda>i. i\<lparr> hi_handle := v \<rparr>) s) response hr)
    \<and> serial (sendHandle (update_info hr (\<lambda>i. i\<lparr> hi_handle := v \<rparr>) s) response hr)"
proof -
  let ?s1 = "update_info hr (\<lambda>i. i\<lparr> hi_handle := v \<rparr>) s"
  have k: "keeps s ?s1" by (simp add: keeps_update_info)
  with assms have "refs_ok ?s1" "serial ?s1" "held ?s1 (rs_handleInfo response)"
    by (simp_all add: keeps_refs_ok keeps_serial keeps_held)
  then show ?thesis
    unfolding sendHandle_def by (intro send_invariant) simp_all
qed

lemma error_then_delete_invariant:
  assumes "refs_ok s" and "serial s" and "held s (rs_handleInfo response)"
    and "(case sendError s response e False of
            Threw s1 \<Rightarrow> Threw s1
          | Returned s1 \<Rightarrow> deleteHandleInfo s1 hr) = a"
    and "a = Returned s' \<or> a = Threw s'"
  shows "refs_ok s' \<and> serial s'"
proof (cases "sendError s response e False")
  case (Returned s1)
  with assms(1-3) have inv1: "refs_ok s1 \<and> serial s1"
    using sendError_invariant [of s response e False s1] by simp
  from Returned assms(4,5) have k: "keeps s1 s'"
    by (auto intro: keeps_deleteHandleInfo)
  from k inv1 show ?thesis by (rule keeps_invariant)
next
  case (Threw s1)
  with assms(1-3) have "refs_ok s1 \<and> serial s1"
    using sendError_invariant [of s response e False s1] by simp
  with Threw assms(4,5) show ?thesis by auto
qed

lemma resume_invariant:
  assumes "refs_ok s" and "serial s" and "held s (callback_handleInfo k)"
    and "resume s k res = Returned s' \<or> resume s k res = Threw s'"
  shows "refs_ok s' \<and> serial s'"
proof (cases k)
  case (K_open response hr path modes attrs)
  then have h: "held s (rs_handleInfo response)" using assms(3) by simp
  show ?thesis
  proof (cases "res_err res")
    case (Some e)
    with K_open assms(4) error_then_delete_invariant [OF assms(1,2) h refl, where e = e and hr = hr and s' = s']
    show ?thesis by (simp add: sendIfError_def)
  next
    case None
    show ?thesis
    proof (cases "modes = []")
      case True
      with None K_open assms(4) sendHandle_invariant [OF assms(1,2) h] show ?thesis
        by (auto simp: sendIfError_def)
    next
      case False
      have "started s (rs_handleInfo response)
          (backend (FsClose (res_handle res)) (K_close_retry response hr path modes attrs) s)"
        by (intro startedI keeps_refl) simp
      with False None K_open assms(4) started_invariant [OF assms(1,2) h] show ?thesis
        by (auto simp: sendIfError_def)
    qed
  qed
next
  case (K_close_retry response hr path modes attrs)
  then have h: "held s (rs_handleInfo response)" using assms(3) by simp
  show ?thesis
  proof (cases "res_err res")
    case (Some e)
    with K_close_retry assms(4) error_then_delete_invariant [OF assms(1,2) h refl, where e = e and hr = hr and s' = s']
    show ?thesis by (simp add: sendIfError_def)
  next
    case None
    have "started s (rs_handleInfo response) (openFile s response hr path modes attrs)"
      unfolding openFile_def by (cases modes) (auto intro!: startedI keeps_refl)
    with None K_close_retry assms(4) started_invariant [OF assms(1,2) h] show ?thesis
      by (auto simp: sendIfError_def)
  qed
next
  case (K_sendSuccess response)
  then have h: "held s (rs_handleInfo response)" using assms(3) by simp
  show ?thesis
  proof (cases "res_err res")
    case (Some e)
    with K_sendSuccess assms(4) sendError_invariant [OF assms(1,2) h, of e False s'] show ?thesis
      by (simp add: sendSuccess_def sendIfError_def)
  next
    case None
    with K_sendSuccess assms(4) send_invariant [OF assms(1,2), of "SftpStatus_writeSuccess response"] h
    show ?thesis
      by (auto simp: sendSuccess_def sendIfError_def)
  qed
next
  case (K_sendAttribs response)
  then have h: "held s (rs_handleInfo response)" using assms(3) by simp
  show ?thesis
  proof (cases "res_err res")
    case (Some e)
    with K_sendAttribs assms(4) sendError_invariant [OF assms(1,2) h, of e False s'] show ?thesis
      by (simp add: sendAttribs_def sendIfError_def)
  next
    case None
    with K_sendAttribs assms(4) h
      send_invariant [OF assms(1,2), of "put (WAttrs (res_stats res)) (start (response\<lparr> rs_type := Some ATTRS \<rparr>))"]
    show ?thesis
      by (auto simp: sendAttribs_def sendIfError_def)
  qed
next
  case (K_sendPath response)
  then have h: "held s (rs_handleInfo response)" using assms(3) by simp
  show ?thesis
  proof (cases "res_err res")
    case (Some e)
    with K_sendPath assms(4) sendError_invariant [OF assms(1,2) h, of e False s'] show ?thesis
      by (simp add: sendPath_def sendIfError_def)
  next
    case None
    let ?r = "writeInt32 0 (writeString [] (writeString (res_path res)
                     (writeInt32 1 (start (response\<lparr> rs_type := Some NAME \<rparr>)))))"
    from None K_sendPath assms(4) have "s' = s \<or> s' = send s ?r"
      by (auto simp: sendPath_def sendIfError_def Let_def split: if_splits)
    with assms(1,2) h send_invariant [OF assms(1,2), of ?r] show ?thesis
      by auto
  qed
next
  case (K_read response)
  then have h: "held s (rs_handleInfo response)" using assms(3) by simp
  show ?thesis
  proof (cases "res_err res")
    case (Some e)
    with K_read assms(4) sendError_invariant [OF assms(1,2) h, of e False s'] show ?thesis
      by (simp add: sendIfError_def)
  next
    case None
    let ?r = "skip (res_bytesRead res) (writeInt32 (int (res_bytesRead res)) response)"
    let ?e = "SftpStatus_write response EOF ''EOF''"
    from None K_read assms(4) have "s' = s \<or> s' = send s ?r \<or> s' = send s ?e"
      by (auto simp: sendIfError_def sendStatus_def Let_def split: if_splits)
    with assms(1,2) h send_invariant [OF assms(1,2), of ?r] send_invariant [OF assms(1,2), of ?e]
    show ?thesis by auto
  qed
next
  case (K_opendir response hr)
  then have h: "held s (rs_handleInfo response)" using assms(3) by simp
  show ?thesis
  proof (cases "res_err res")
    case (Some e)
    with K_opendir assms(4) error_then_delete_invariant [OF assms(1,2) h refl, where e = e and hr = hr and s' = s']
    show ?thesis by (simp add: sendIfError_def)
  next
    case None
    with K_opendir assms(4) sendHandle_invariant [OF assms(1,2) h] show ?thesis
      by (auto simp: sendIfError_def)
  qed
next
  case (K_readdir response hr count)
  then have h: "held s (rs_handleInfo response)" using assms(3) by simp
  show ?thesis
  proof (cases "res_err res")
    case (Some e)
    with K_readdir assms(4) sendError_invariant [OF assms(1,2) h, of e False s'] show ?thesis
      by (simp add: sendIfError_def)
  next
    case None
    note fr = readdir_next_frame [where s = s and r = response and hr = hr and c = count
        and items = "res_items res"]
    show ?thesis
    proof (cases "readdir_next s response hr count (res_items res)")
      case (Reply s1 r)
      with fr have k: "keeps s s1" and hh: "rs_handleInfo r = rs_handleInfo response" by simp_all
      have "refs_ok s1" "serial s1" "held s1 (rs_handleInfo r)"
        using k hh h assms(1,2) by (simp_all add: keeps_refs_ok keeps_serial keeps_held)
      then have "refs_ok (send s1 r) \<and> serial (send s1 r)" by (rule send_invariant)
      with Reply None K_readdir assms(4) show ?thesis
        by (auto simp: sendIfError_def)
    next
      case (Proceed s1)
      with fr have "started s (rs_handleInfo response) s1" by simp
      with Proceed None K_readdir assms(4) started_invariant [OF assms(1,2) h] show ?thesis
        by (auto simp: sendIfError_def)
    next
      case (Raise s1)
      with fr have "keeps s s1" by simp
      with Raise None K_readdir assms(4) keeps_invariant [of s s1] assms(1,2) show ?thesis
        by (auto simp: sendIfError_def)
    qed
  qed
next
  case K_discard
  with assms show ?thesis by auto
qed

lemma step_invariant:
  assumes "refs_ok s" and "serial s"
  shows "refs_ok (step s e) \<and> serial (step s e)"
proof (cases e)
  case (Message request)
  with assms show ?thesis by (simp add: process_invariant)
next
  case (Completion n res)
  show ?thesis
  proof (cases "n < length (ss_pending s)")
    case False
    with Completion assms show ?thesis by (simp add: complete_def)
  next
    case True
    let ?s1 = "s\<lparr> ss_pending := take n (ss_pending s) @ drop (Suc n) (ss_pending s) \<rparr>"
    let ?k = "snd (ss_pending s ! n)"
    from remove_invariant [OF assms True refl]
    have inv1: "refs_ok ?s1" "serial ?s1" "held ?s1 (callback_handleInfo ?k)" by simp_all
    have "resume ?s1 ?k res = Returned (step s e) \<or> resume ?s1 ?k res = Threw (step s e)"
      using Completion True by (cases "resume ?s1 ?k res") (simp_all add: complete_def)
    with inv1 show ?thesis by (rule resume_invariant)
  qed
next
  case ChannelClose
  with assms show ?thesis by (simp add: end_session_invariant)
qed

lemma run_invariant:
  "refs_ok s \<Longrightarrow> serial s \<Longrightarrow> refs_ok (run s es) \<and> serial (run s es)"
proof (induction es arbitrary: s)
  case Nil
  then show ?case by simp
next
  case (Cons e es)
  from step_invariant [OF Cons.prems, of e] Cons.IH [of "step s e"] show ?case by simp
qed

lemma new_session_invariant: "refs_ok new_session \<and> serial new_session"
  by (simp add: refs_ok_def serial_def new_session_def)

text \<open>
  C1. For every run of a session (messages, completions of backend calls and the close
  of the channel, in any order) and every handle record, at most one backend call is in
  flight for the record, and while one is in flight the record is locked. A handle-bound
  request that finds its record locked starts no backend call: it is put at the end of
  the record's queue. One that finds it unlocked locks it and is processed at once.
  Sending a response that belongs to a handle-bound request either clears the lock,
  when the queue is empty, or takes exactly the first task off the queue and runs it:
  the task rejects the request when the record has become a tombstone and processes
  it otherwise. So the backend call of a request begins only after the response of the
  request before it on the same record has been sent.
\<close>

theorem per_handle_serialization:
  "inflight (run new_session events) hr \<le> 1
   \<and> (0 < inflight (run new_session events) hr \<longrightarrow>
        hr < length (ss_store (run new_session events)) \<and> hi_locked (info (run new_session events) hr))
   \<and> (handle_bound (rq_type request) \<and> readHandleInfo s request = Some hr \<and> hi_locked (info s hr) \<longrightarrow>
        process s request =
          update_info hr (\<lambda>i. i\<lparr> hi_tasks := hi_tasks i @
            [Task request (new_SftpResponse\<lparr> rs_id := rq_id request, rs_handleInfo := Some hr \<rparr>) hr] \<rparr>) s
        \<and> ss_pending (process s request) = ss_pending s)
   \<and> (handle_bound (rq_type request) \<and> readHandleInfo s request = Some hr \<and> \<not> hi_locked (info s hr) \<longrightarrow>
        process s request =
          processRequest (update_info hr (\<lambda>i. i\<lparr> hi_locked := True \<rparr>) s) request
            (new_SftpResponse\<lparr> rs_id := rq_id request, rs_handleInfo := Some hr \<rparr>) (Some hr))
   \<and> (rs_handleInfo response = Some hr \<and> hr < length (ss_store s) \<and> hi_tasks (info s hr) = [] \<longrightarrow>
        send s response =
          update_info hr (\<lambda>i. i\<lparr> hi_locked := False \<rparr>) (channel_send s (finish response)))
   \<and> (rs_handleInfo response = Some hr \<and> hr < length (ss_store s) \<and> hi_tasks (info s hr) = t # ts \<longrightarrow>
        send s response =
          (let s1 = update_info hr (\<lambda>i. i\<lparr> hi_tasks := ts \<rparr>) (channel_send s (finish response)) in
           if hi_h (info s1 (t_handleInfo t)) < 0
             then sendStatus s1 (t_response t) FAILURE ''Invalid handle''
           else processRequest s1 (t_request t) (t_response t) (Some (t_handleInfo t))))"
proof -
  let ?s = "run new_session events"
  have inv: "refs_ok ?s" "serial ?s"
    using run_invariant [of new_session events] new_session_invariant by simp_all
  have one: "inflight ?s hr \<le> 1"
  proof (cases "hr < length (ss_store ?s)")
    case True
    with inv(2) show ?thesis by (simp add: serial_def)
  next
    case False
    with inv(1) show ?thesis by (simp add: inflight_outside)
  qed
  have locked: "hr < length (ss_store ?s) \<and> hi_locked (info ?s hr)" if "0 < inflight ?s hr"
  proof -
    have len: "hr < length (ss_store ?s)"
      using that inv(1) inflight_outside [of ?s hr] by (cases "hr < length (ss_store ?s)") simp_all
    with inv(2) that show ?thesis by (auto simp: serial_def)
  qed
  have queue: "process s request =
          update_info hr (\<lambda>i. i\<lparr> hi_tasks := hi_tasks i @
            [Task request (new_SftpResponse\<lparr> rs_id := rq_id request, rs_handleInfo := Some hr \<rparr>) hr] \<rparr>) s
        \<and> ss_pending (process s request) = ss_pending s"
    if "handle_bound (rq_type request) \<and> readHandleInfo s request = Some hr \<and> hi_locked (info s hr)"
    using that handle_bound_not_INIT [of "rq_type request"] by (simp add: process_def)
  have now: "process s request =
          processRequest (update_info hr (\<lambda>i. i\<lparr> hi_locked := True \<rparr>) s) request
            (new_SftpResponse\<lparr> rs_id := rq_id request, rs_handleInfo := Some hr \<rparr>) (Some hr)"
    if "handle_bound (rq_type request) \<and> readHandleInfo s request = Some hr \<and> \<not> hi_locked (info s hr)"
    using that handle_bound_not_INIT [of "rq_type request"] by (simp add: process_def)
  have unlock: "send s response =
          update_info hr (\<lambda>i. i\<lparr> hi_locked := False \<rparr>) (channel_send s (finish response))"
    if "rs_handleInfo response = Some hr \<and> hr < length (ss_store s) \<and> hi_tasks (info s hr) = []"
    using that by (simp add: send.simps processNext.simps)
  have pop: "send s response =
          (let s1 = update_info hr (\<lambda>i. i\<lparr> hi_tasks := ts \<rparr>) (channel_send s (finish response)) in
           if hi_h (info s1 (t_handleInfo t)) < 0
             then sendStatus s1 (t_response t) FAILURE ''Invalid handle''
           else processRequest s1 (t_request t) (t_response t) (Some (t_handleInfo t)))"
    if "rs_handleInfo response = Some hr \<and> hr < length (ss_store s) \<and> hi_tasks (info s hr) = t # ts"
    using that by (simp add: send.simps processNext.simps sendStatus_def Let_def)
  show ?thesis
    using one locked queue now unlock pop by blast
qed

theorem per_handle_serialization_witness:
  "inflight (run new_session
      [Message (plain_request OPEN 1), Completion 0 ok_result, Message (plain_request READ 2),
       Message (plain_request READ 3)]) 0 = 1
   \<and> hi_locked (info (run new_session
      [Message (plain_request OPEN 1), Completion 0 ok_result, Message (plain_request READ 2),
       Message (plain_request READ 3)]) 0)
   \<and> process busy_session (plain_request READ 9) =
       update_info 0 (\<lambda>i. i\<lparr> hi_tasks := hi_tasks i @ [Task (plain_request READ 9) (busy_response 9) 0] \<rparr>)
         busy_session
   \<and> process idle_session (plain_request READ 2) =
       processRequest locked_session (plain_request READ 2) (busy_response 2) (Some 0)
   \<and> send locked_session (busy_response 2) =
       update_info 0 (\<lambda>i. i\<lparr> hi_locked := False \<rparr>) (channel_send locked_session (finish (busy_response 2)))
   \<and> send busy_session (busy_response 2) =
       processRequest
         (update_info 0 (\<lambda>i. i\<lparr> hi_tasks := [] \<rparr>) (channel_send busy_session (finish (busy_response 2))))
         (plain_request READ 3) (busy_response 3) (Some 0)"
proof -
  let ?evs = "[Message (plain_request OPEN 1), Completion 0 ok_result, Message (plain_request READ 2),
       Message (plain_request READ 3)]"
  have n: "inflight (run new_session ?evs) 0 = 1"
    by (simp add: example_defs session_defs writer_defs inflight_def)
  from per_handle_serialization [of ?evs 0] n
  have 1: "hi_locked (info (run new_session ?evs) 0)" by simp
  have 2: "process busy_session (plain_request READ 9) =
       update_info 0 (\<lambda>i. i\<lparr> hi_tasks := hi_tasks i @ [Task (plain_request READ 9) (busy_response 9) 0] \<rparr>)
         busy_session"
    using per_handle_serialization [where request = "plain_request READ 9" and s = busy_session and hr = 0]
    by (simp add: example_defs handle_bound_def readHandleInfo_def info_def new_SftpResponse_def)
  have 3: "process idle_session (plain_request READ 2) =
       processRequest locked_session (plain_request READ 2) (busy_response 2) (Some 0)"
    using per_handle_serialization [where request = "plain_request READ 2" and s = idle_session and hr = 0]
    by (simp add: example_defs handle_bound_def readHandleInfo_def info_def new_SftpResponse_def)
  have 4: "send locked_session (busy_response 2) =
       update_info 0 (\<lambda>i. i\<lparr> hi_locked := False \<rparr>) (channel_send locked_session (finish (busy_response 2)))"
    using per_handle_serialization [where response = "busy_response 2" and s = locked_session and hr = 0]
    by (simp add: example_defs info_def update_info_def)
  have 5: "send busy_session (busy_response 2) =
       processRequest
         (update_info 0 (\<lambda>i. i\<lparr> hi_tasks := [] \<rparr>) (channel_send busy_session (finish (busy_response 2))))
         (plain_request READ 3) (busy_response 3) (Some 0)"
    using per_handle_serialization [where response = "busy_response 2" and s = busy_session and hr = 0
        and t = "Task (plain_request READ 3) (busy_response 3) 0" and ts = "[]"]
    by (simp add: example_defs info_def update_info_def channel_send_def)
  from n 1 2 3 4 5 show ?thesis by blast
qed

section \<open>The handle table in every run\<close>

lemma cursor_simps [simp]:
  "ss_nextHandle (channel_send s p) = ss_nextHandle s"
  "ss_nextHandle (backend c k s) = ss_nextHandle s"
  "ss_nextHandle (update_info hr f s) = ss_nextHandle s"
  by (simp_all add: channel_send_def backend_def update_info_def)

lemma table_ok_simps [simp]:
  "table_ok (channel_send s p) = table_ok s"
  "table_ok (backend c k s) = table_ok s"
  by (simp_all add: table_ok_def)

lemma table_ok_update_info:
  assumes "table_ok s" and "\<And>i. hi_h (f i) = hi_h i"
  shows "table_ok (update_info hr f s)"
proof -
  have h: "hi_h (info (update_info hr f s) r) = hi_h (info s r)" for r
    by (simp add: info_update_info assms(2))
  show ?thesis
    using assms(1) unfolding table_ok_def by (simp add: h)
qed

lemma table_ok_createHandleInfo_scan:
  "table_ok s \<Longrightarrow> 1 \<le> h \<Longrightarrow> h \<le> MAX_HANDLE_COUNT \<Longrightarrow> table_ok (snd (createHandleInfo_scan s h n))"
proof (induction n arbitrary: h)
  case 0
  then show ?case by simp
next
  case (Suc n)
  have range: "1 \<le> (h mod MAX_HANDLE_COUNT) + 1" "(h mod MAX_HANDLE_COUNT) + 1 \<le> MAX_HANDLE_COUNT"
    by (simp_all add: MAX_HANDLE_COUNT_def)
  show ?case
  proof (cases "ss_handles s h")
    case None
    let ?s' = "s\<lparr> ss_store := ss_store s @ [new_SftpHandleInfo h],
               ss_handles := (ss_handles s)(h := Some (length (ss_store s))),
               ss_nextHandle := (h mod MAX_HANDLE_COUNT) + 1 \<rparr>"
    have old: "info ?s' hr = info s hr" if "hr < length (ss_store s)" for hr
      using that by (simp add: info_def nth_append)
    have new: "hi_h (info ?s' (length (ss_store s))) = h"
      by (simp add: info_def new_SftpHandleInfo_def)
    have "table_ok ?s'"
      unfolding table_ok_def
    proof (intro conjI allI impI)
      show "1 \<le> ss_nextHandle ?s'" "ss_nextHandle ?s' \<le> MAX_HANDLE_COUNT"
        using range by simp_all
    next
      fix h' hr assume a: "ss_handles ?s' h' = Some hr"
      have "1 \<le> h' \<and> h' \<le> MAX_HANDLE_COUNT \<and> hr < length (ss_store ?s') \<and> hi_h (info ?s' hr) = h'"
      proof (cases "h' = h")
        case True
        with a have "hr = length (ss_store s)" by simp
        with True Suc.prems(2,3) new show ?thesis by simp
      next
        case False
        with a have b: "ss_handles s h' = Some hr" by simp
        with Suc.prems(1) have c: "1 \<le> h'" "h' \<le> MAX_HANDLE_COUNT" "hr < length (ss_store s)"
          "hi_h (info s hr) = h'"
          unfolding table_ok_def by blast+
        with old [of hr] show ?thesis by simp
      qed
      then show "1 \<le> h'" "h' \<le> MAX_HANDLE_COUNT" "hr < length (ss_store ?s')" "hi_h (info ?s' hr) = h'"
        by simp_all
    next
      fix hr assume a: "hr < length (ss_store ?s')"
      show "hi_h (info ?s' hr) = - 1 \<or> ss_handles ?s' (hi_h (info ?s' hr)) = Some hr"
      proof (cases "hr < length (ss_store s)")
        case True
        with Suc.prems(1) have d: "hi_h (info s hr) = - 1 \<or> ss_handles s (hi_h (info s hr)) = Some hr"
          unfolding table_ok_def by blast
        have "hi_h (info s hr) \<noteq> h" if "ss_handles s (hi_h (info s hr)) = Some hr"
          using that None by auto
        with d old [OF True] show ?thesis by auto
      next
        case False
        with a have "hr = length (ss_store s)" by simp
        with new show ?thesis by simp
      qed
    qed
    with None show ?thesis by (simp add: Let_def)
  next
    case (Some a)
    with Suc.IH [OF Suc.prems(1) range] show ?thesis by (simp add: Let_def)
  qed
qed

lemma table_ok_createHandleInfo: "table_ok s \<Longrightarrow> createHandleInfo s = (x, s') \<Longrightarrow> table_ok s'"
  using table_ok_createHandleInfo_scan [of s "ss_nextHandle s" "nat MAX_HANDLE_COUNT"]
  by (simp add: createHandleInfo_def table_ok_def)

text \<open>
  With the table in order, \<open>deleteHandleInfo\<close> finds the slot of every record that is
  not a tombstone: it does not throw.
\<close>

lemma table_ok_deleteHandleInfo:
  assumes "table_ok s" and "hr < length (ss_store s)"
  shows "\<exists>s'. deleteHandleInfo s hr = Returned s' \<and> table_ok s'"
proof (cases "hi_h (info s hr) < 0")
  case True
  with assms show ?thesis by (simp add: deleteHandleInfo_def)
next
  case False
  define h0 where "h0 = hi_h (info s hr)"
  from assms False have slot: "ss_handles s h0 = Some hr"
    unfolding table_ok_def h0_def by fastforce
  let ?s1 = "update_info hr (\<lambda>i. i\<lparr> hi_h := - 1 \<rparr>) s"
  let ?s' = "?s1\<lparr> ss_handles := (ss_handles s)(h0 := None) \<rparr>"
  have len: "length (ss_store ?s') = length (ss_store s)" by simp
  have inf: "hi_h (info ?s1 r) = (if r = hr then - 1 else hi_h (info s r))" for r
    using assms(2) by (simp add: info_update_info)
  have "table_ok ?s'"
    unfolding table_ok_def
  proof (intro conjI allI impI)
    show "1 \<le> ss_nextHandle ?s'" "ss_nextHandle ?s' \<le> MAX_HANDLE_COUNT"
      using assms(1) by (simp_all add: table_ok_def)
  next
    fix h' r assume a: "ss_handles ?s' h' = Some r"
    then have ne: "h' \<noteq> h0" and b: "ss_handles s h' = Some r"
      by (auto split: if_splits)
    with assms(1) have c: "1 \<le> h'" "h' \<le> MAX_HANDLE_COUNT" "r < length (ss_store s)"
      "hi_h (info s r) = h'"
      unfolding table_ok_def by blast+
    from c(4) ne have "r \<noteq> hr" by (auto simp: h0_def)
    with c show "1 \<le> h'" "h' \<le> MAX_HANDLE_COUNT" "r < length (ss_store ?s')" "hi_h (info ?s' r) = h'"
      by (simp_all add: inf)
  next
    fix r assume a: "r < length (ss_store ?s')"
    show "hi_h (info ?s' r) = - 1 \<or> ss_handles ?s' (hi_h (info ?s' r)) = Some r"
    proof (cases "r = hr")
      case True
      then show ?thesis by (simp add: inf)
    next
      case False
      from a assms(1) have d: "hi_h (info s r) = - 1 \<or> ss_handles s (hi_h (info s r)) = Some r"
        unfolding table_ok_def by simp
      have "hi_h (info s r) \<noteq> h0" if "ss_handles s (hi_h (info s r)) = Some r"
        using that slot False by auto
      with d False show ?thesis by (auto simp: inf)
    qed
  qed
  moreover have "deleteHandleInfo s hr = Returned ?s'"
    using False slot by (simp add: deleteHandleInfo_def Let_def h0_def)
  ultimately show ?thesis by blast
qed

lemma records_ok_keeps: "keeps s s' \<Longrightarrow> records_ok s \<Longrightarrow> records_ok s'"
proof -
  assume k: "keeps s s'" and r: "records_ok s"
  have len: "length (ss_store s) \<le> length (ss_store s')" using k by (simp add: keeps_def)
  have tasks: "hi_tasks (info s' x) = (if x < length (ss_store s) then hi_tasks (info s x) else [])"
    if "x < length (ss_store s')" for x
    using k that by (simp add: keeps_def)
  have pend: "ss_pending s' = ss_pending s" using k by (simp add: keeps_def)
  show "records_ok s'"
    unfolding records_ok_def
  proof (intro conjI ballI allI impI)
    fix ck hr assume "ck \<in> set (ss_pending s')" "callback_record (snd ck) = Some hr"
    with r pend have "hr < length (ss_store s)" unfolding records_ok_def by auto
    with len show "hr < length (ss_store s')" by simp
  next
    fix x t assume a: "x < length (ss_store s')" "t \<in> set (hi_tasks (info s' x))"
    with tasks [OF a(1)] have "x < length (ss_store s)" "t \<in> set (hi_tasks (info s x))"
      by (auto split: if_splits)
    with r have "t_handleInfo t < length (ss_store s)" unfolding records_ok_def by blast
    with len show "t_handleInfo t < length (ss_store s')" by simp
  qed
qed

lemma records_ok_backend:
  "records_ok s \<Longrightarrow> \<forall>hr. callback_record k = Some hr \<longrightarrow> hr < length (ss_store s) \<Longrightarrow>
   records_ok (backend c k s)"
  unfolding records_ok_def by auto

lemma createHandleInfo_scan_Some:
  "createHandleInfo_scan s h n = (Some hr, s') \<Longrightarrow> hr < length (ss_store s')"
  by (induction n arbitrary: h) (auto simp: Let_def split: option.splits)

lemma createHandleInfo_Some: "createHandleInfo s = (Some hr, s') \<Longrightarrow> hr < length (ss_store s')"
  unfolding createHandleInfo_def by (rule createHandleInfo_scan_Some)

lemma keeps_length: "keeps s s' \<Longrightarrow> hr < length (ss_store s) \<Longrightarrow> hr < length (ss_store s')"
  by (simp add: keeps_def)

lemma readdir_next_table:
  assumes "table_ok s" and "records_ok s" and "hr < length (ss_store s)"
  shows "case readdir_next s r hr c items of
           Reply s' r' \<Rightarrow> table_ok s' \<and> records_ok s'
         | Proceed s' \<Rightarrow> table_ok s' \<and> records_ok s'
         | Raise s' \<Rightarrow> table_ok s' \<and> records_ok s'"
proof -
  have upd: "table_ok (update_info hr (\<lambda>i. i\<lparr> hi_items := x \<rparr>) s)
      \<and> records_ok (update_info hr (\<lambda>i. i\<lparr> hi_items := x \<rparr>) s)" for x
    using assms by (simp add: table_ok_update_info records_ok_keeps [OF keeps_update_info])
  show ?thesis
  proof (cases items)
    case None
    with assms show ?thesis by (simp add: readdir_next_def)
  next
    case (Some list)
    show ?thesis
    proof (cases "write_items r c list")
      case Overflowed
      with Some assms show ?thesis by (simp add: readdir_next_def)
    next
      case (Exceeded r' c' rest)
      with Some upd show ?thesis by (simp add: readdir_next_def)
    next
      case (Drained r' c')
      with Some assms show ?thesis
        by (simp add: readdir_next_def readdir_def records_ok_backend)
    qed
  qed
qed

lemma processRequest_try_table:
  assumes t: "table_ok s" and r: "records_ok s" and v: "\<forall>hr. hi = Some hr \<longrightarrow> hr < length (ss_store s)"
  shows "case processRequest_try s rq rs hi of
           Reply s' r' \<Rightarrow> table_ok s' \<and> records_ok s'
         | Proceed s' \<Rightarrow> table_ok s' \<and> records_ok s'
         | Raise s' \<Rightarrow> table_ok s' \<and> records_ok s'"
proof (cases "rq_length rq > 66000")
  case True
  with t r show ?thesis by (simp add: processRequest_try_def)
next
  case False
  have alloc: "table_ok s' \<and> records_ok s' \<and> (\<forall>hr. x = Some hr \<longrightarrow> hr < length (ss_store s'))"
    if c: "createHandleInfo s = (x, s')" for x s'
  proof -
    have "table_ok s'" by (rule table_ok_createHandleInfo [OF t c])
    moreover have "records_ok s'" by (rule records_ok_keeps [OF keeps_createHandleInfo [OF c] r])
    moreover have "\<forall>hr. x = Some hr \<longrightarrow> hr < length (ss_store s')"
      using c createHandleInfo_Some by blast
    ultimately show ?thesis by simp
  qed
  consider (OPEN) "rq_type rq = OPEN" | (OPENDIR) "rq_type rq = OPENDIR" | (CLOSE) "rq_type rq = CLOSE"
    | (READDIR) "rq_type rq = READDIR"
    | (other) "rq_type rq \<noteq> OPEN" "rq_type rq \<noteq> OPENDIR" "rq_type rq \<noteq> CLOSE"
        "rq_type rq \<noteq> READDIR"
    by blast
  then show ?thesis
  proof cases
    case OPEN
    show ?thesis
    proof (cases "createHandleInfo s")
      case (Pair x s')
      note a = alloc [OF Pair]
      show ?thesis
      proof (cases x)
        case None
        with OPEN False t r a Pair show ?thesis
          by (simp add: processRequest_try_def)
      next
        case (Some hr)
        with a have "records_ok (openFile s' rs hr (rq_path rq) (rq_modes rq) (rq_attrs rq))"
          by (simp add: openFile_def records_ok_backend split: list.splits)
        moreover have "table_ok (openFile s' rs hr (rq_path rq) (rq_modes rq) (rq_attrs rq))"
          using a by (simp add: openFile_def split: list.splits)
        ultimately show ?thesis
          using OPEN False t r Pair Some by (simp add: processRequest_try_def)
      qed
    qed
  next
    case OPENDIR
    show ?thesis
    proof (cases "createHandleInfo s")
      case (Pair x s')
      note a = alloc [OF Pair]
      show ?thesis
      proof (cases x)
        case None
        with OPENDIR False t r a Pair show ?thesis
          by (simp add: processRequest_try_def)
      next
        case (Some hr)
        with a have "records_ok (backend (FsOpendir (rq_path rq)) (K_opendir rs hr) s')"
          by (simp add: records_ok_backend)
        with OPENDIR False t r a Pair Some show ?thesis
          by (simp add: processRequest_try_def)
      qed
    qed
  next
    case CLOSE
    show ?thesis
    proof (cases hi)
      case None
      with CLOSE False t r show ?thesis by (simp add: processRequest_try_def)
    next
      case (Some hr)
      with v have len: "hr < length (ss_store s)" by simp
      from table_ok_deleteHandleInfo [OF t len] obtain s' where
        d: "deleteHandleInfo s hr = Returned s'" and t': "table_ok s'" by blast
      have "keeps s s'"
        using d keeps_deleteHandleInfo [of s hr s'] by simp
      then have "records_ok s'"
        using r by (rule records_ok_keeps)
      with CLOSE False Some d t' show ?thesis
        by (simp add: processRequest_try_def records_ok_backend)
    qed
  next
    case READDIR
    show ?thesis
    proof (cases hi)
      case None
      with READDIR False t r show ?thesis by (simp add: processRequest_try_def)
    next
      case (Some hr)
      with v have len: "hr < length (ss_store s)" by simp
      let ?s = "update_info hr (\<lambda>i. i\<lparr> hi_items := Some [] \<rparr>) s"
      have u: "table_ok ?s" "records_ok ?s" "hr < length (ss_store ?s)"
        using t r len by (simp_all add: table_ok_update_info records_ok_keeps [OF keeps_update_info])
      note n = readdir_next_table [OF u]
      have p: "table_ok (readdir s r' hr 0) \<and> records_ok (readdir s r' hr 0)" for r'
        using t r len by (simp add: readdir_def records_ok_backend)
      show ?thesis
      proof (cases "\<exists>previous. hi_items (info s hr) = Some previous \<and> previous \<noteq> []")
        case True
        then obtain previous where pr: "hi_items (info s hr) = Some previous" "previous \<noteq> []"
          by blast
        have "processRequest_try s rq rs hi =
            readdir_next ?s (writeInt32 0 (start (rs\<lparr> rs_type := Some NAME \<rparr>))) hr 0 (Some previous)"
          using READDIR False Some pr by (simp add: processRequest_try_def)
        with n [of "writeInt32 0 (start (rs\<lparr> rs_type := Some NAME \<rparr>))" 0 "Some previous"]
        show ?thesis by simp
      next
        case no: False
        then have "processRequest_try s rq rs hi =
            Proceed (readdir s (writeInt32 0 (start (rs\<lparr> rs_type := Some NAME \<rparr>))) hr 0)"
          using READDIR False Some
          by (auto simp: processRequest_try_def Let_def split: option.splits)
        with p show ?thesis by simp
      qed
    qed
  next
    case other
    with False t r show ?thesis
      by (cases "rq_type rq")
        (simp_all add: processRequest_try_def Let_def records_ok_backend split: option.splits)
  qed
qed

lemma send_table_aux:
  "(table_ok s \<and> records_ok s \<longrightarrow> table_ok (send s response) \<and> records_ok (send s response))"
  "(table_ok s \<and> records_ok s \<longrightarrow> table_ok (processNext s hr) \<and> records_ok (processNext s hr))"
  "(table_ok s \<and> records_ok s \<and> (\<forall>hr. handleInfo = Some hr \<longrightarrow> hr < length (ss_store s)) \<longrightarrow>
      table_ok (processRequest s request response handleInfo)
      \<and> records_ok (processRequest s request response handleInfo))"
proof (induction s response and s hr and s request response handleInfo
    rule: send_processNext_processRequest.induct)
  case (1 s response)
  show ?case
  proof (intro impI)
    assume a: "table_ok s \<and> records_ok s"
    then have b: "table_ok (channel_send s (finish response)) \<and> records_ok (channel_send s (finish response))"
      by (simp add: records_ok_keeps [OF keeps_channel_send])
    show "table_ok (send s response) \<and> records_ok (send s response)"
    proof (cases "rs_handleInfo response")
      case None
      with b show ?thesis by (simp add: send.simps)
    next
      case (Some hr)
      with b "1.IH" [OF refl Some] show ?thesis by (simp add: send.simps)
    qed
  qed
next
  case (2 s hr)
  show ?case
  proof (intro impI)
    assume a: "table_ok s \<and> records_ok s"
    show "table_ok (processNext s hr) \<and> records_ok (processNext s hr)"
    proof (cases "hr < length (ss_store s)")
      case False
      with a show ?thesis by (simp add: processNext.simps)
    next
      case len: True
      show ?thesis
      proof (cases "hi_tasks (info s hr)")
        case Nil
        have "table_ok (update_info hr (\<lambda>i. i\<lparr> hi_locked := False \<rparr>) s)"
          using a by (simp add: table_ok_update_info)
        moreover have "records_ok (update_info hr (\<lambda>i. i\<lparr> hi_locked := False \<rparr>) s)"
          using a len Nil unfolding records_ok_def by (auto simp: info_update_info)
        ultimately show ?thesis using len Nil by (simp add: processNext.simps)
      next
        case (Cons t ts)
        let ?s1 = "update_info hr (\<lambda>i. i\<lparr> hi_tasks := ts \<rparr>) s"
        have t1: "table_ok ?s1"
          using a by (simp add: table_ok_update_info)
        have r1: "records_ok ?s1"
          using a len Cons unfolding records_ok_def by (auto simp: info_update_info)
        have v: "t_handleInfo t < length (ss_store ?s1)"
          using a len Cons unfolding records_ok_def by fastforce
        show ?thesis
        proof (cases "hi_h (info ?s1 (t_handleInfo t)) < 0")
          case True
          with "2.IH"(1) [OF len Cons refl True] t1 r1 len Cons show ?thesis
            by (simp add: processNext.simps)
        next
          case False
          with "2.IH"(2) [OF len Cons refl False] t1 r1 v len Cons show ?thesis
            by (simp add: processNext.simps)
        qed
      qed
    qed
  qed
next
  case (3 s request response handleInfo)
  show ?case
  proof (intro impI)
    assume a: "table_ok s \<and> records_ok s \<and> (\<forall>hr. handleInfo = Some hr \<longrightarrow> hr < length (ss_store s))"
    show "table_ok (processRequest s request response handleInfo)
      \<and> records_ok (processRequest s request response handleInfo)"
    proof (cases "ss_fs s")
      case False
      with a show ?thesis by (simp add: processRequest.simps)
    next
      case True
      from a have fr: "case processRequest_try s request response handleInfo of
           Reply s' r' \<Rightarrow> table_ok s' \<and> records_ok s'
         | Proceed s' \<Rightarrow> table_ok s' \<and> records_ok s'
         | Raise s' \<Rightarrow> table_ok s' \<and> records_ok s'"
        by (intro processRequest_try_table) simp_all
      show ?thesis
      proof (cases "processRequest_try s request response handleInfo")
        case (Reply s' r)
        with fr "3.IH"(1) [OF _ Reply] True show ?thesis
          by (simp add: processRequest.simps)
      next
        case (Proceed s')
        with fr True show ?thesis by (simp add: processRequest.simps)
      next
        case (Raise s')
        with fr "3.IH"(2) [OF _ Raise] True show ?thesis
          by (simp add: processRequest.simps)
      qed
    qed
  qed
qed

lemma send_table:
  "table_ok s \<Longrightarrow> records_ok s \<Longrightarrow> table_ok (send s response) \<and> records_ok (send s response)"
  using send_table_aux(1) by blast

lemma processRequest_table:
  "table_ok s \<Longrightarrow> records_ok s \<Longrightarrow> \<forall>hr. handleInfo = Some hr \<longrightarrow> hr < length (ss_store s) \<Longrightarrow>
   table_ok (processRequest s request response handleInfo)
   \<and> records_ok (processRequest s request response handleInfo)"
  using send_table_aux(3) by blast

lemma process_table:
  assumes "table_ok s" and "records_ok s"
  shows "table_ok (process s request) \<and> records_ok (process s request)"
proof (cases "rq_type request = INIT")
  case True
  with assms send_table show ?thesis by (simp add: process_def)
next
  case False
  show ?thesis
  proof (cases "handle_bound (rq_type request)")
    case nb: False
    with False assms processRequest_table [of s None] show ?thesis
      by (simp add: process_def)
  next
    case hb: True
    show ?thesis
    proof (cases "readHandleInfo s request")
      case None
      with False hb assms send_table show ?thesis
        by (simp add: process_def sendStatus_def)
    next
      case (Some hr)
      then have len: "hr < length (ss_store s)"
        using assms(1) by (auto simp: readHandleInfo_def table_ok_def split: if_splits)
      show ?thesis
      proof (cases "hi_locked (info s hr)")
        case False
        let ?s1 = "update_info hr (\<lambda>i. i\<lparr> hi_locked := True \<rparr>) s"
        have "table_ok ?s1" using assms(1) by (simp add: table_ok_update_info)
        moreover have "records_ok ?s1"
          using assms(2) unfolding records_ok_def by (auto simp: info_update_info)
        ultimately have "table_ok (processRequest ?s1 request rs (Some hr))
            \<and> records_ok (processRequest ?s1 request rs (Some hr))" for rs
          using len by (intro processRequest_table) simp_all
        with \<open>rq_type request \<noteq> INIT\<close> hb Some False show ?thesis
          by (simp add: process_def)
      next
        case True
        let ?s1 = "update_info hr (\<lambda>i. i\<lparr> hi_tasks := hi_tasks i @ [Task request rs hr] \<rparr>) s"
        have "table_ok (update_info hr (\<lambda>i. i\<lparr> hi_tasks := hi_tasks i @ [Task request rs hr] \<rparr>) s)" for rs
          using assms(1) by (simp add: table_ok_update_info)
        moreover have "records_ok (update_info hr (\<lambda>i. i\<lparr> hi_tasks := hi_tasks i @ [Task request rs hr] \<rparr>) s)"
          for rs
          using assms(2) len unfolding records_ok_def by (auto simp: info_update_info)
        ultimately show ?thesis
          using \<open>rq_type request \<noteq> INIT\<close> hb Some True by (simp add: process_def)
      qed
    qed
  qed
qed

lemma store_grows_aux:
  "length (ss_store s) \<le> length (ss_store (send s response))"
  "length (ss_store s) \<le> length (ss_store (processNext s hr))"
  "length (ss_store s) \<le> length (ss_store (processRequest s request response handleInfo))"
proof (induction s response and s hr and s request response handleInfo
    rule: send_processNext_processRequest.induct)
  case (1 s response)
  show ?case
  proof (cases "rs_handleInfo response")
    case None
    then show ?thesis by (simp add: send.simps)
  next
    case (Some hr)
    with "1.IH" [OF refl Some] show ?thesis by (simp add: send.simps)
  qed
next
  case (2 s hr)
  show ?case
  proof (cases "hr < length (ss_store s)")
    case False
    then show ?thesis by (simp add: processNext.simps)
  next
    case len: True
    show ?thesis
    proof (cases "hi_tasks (info s hr)")
      case Nil
      with len show ?thesis by (simp add: processNext.simps)
    next
      case (Cons t ts)
      let ?s1 = "update_info hr (\<lambda>i. i\<lparr> hi_tasks := ts \<rparr>) s"
      show ?thesis
      proof (cases "hi_h (info ?s1 (t_handleInfo t)) < 0")
        case True
        with "2.IH"(1) [OF len Cons refl True] len Cons show ?thesis
          by (simp add: processNext.simps)
      next
        case False
        with "2.IH"(2) [OF len Cons refl False] len Cons show ?thesis
          by (simp add: processNext.simps)
      qed
    qed
  qed
next
  case (3 s request response handleInfo)
  show ?case
  proof (cases "ss_fs s")
    case False
    then show ?thesis by (simp add: processRequest.simps)
  next
    case True
    note fr = processRequest_try_frame [where s = s and rq = request and rs = response
        and hi = handleInfo]
    show ?thesis
    proof (cases "processRequest_try s request response handleInfo")
      case (Reply s' r)
      with fr have "length (ss_store s) \<le> length (ss_store s')" by (simp add: keeps_def)
      with "3.IH"(1) [OF _ Reply] True Reply show ?thesis
        by (simp add: processRequest.simps)
    next
      case (Proceed s')
      with fr have "length (ss_store s) \<le> length (ss_store s')"
        by (auto simp: started_def keeps_def)
      with True Proceed show ?thesis by (simp add: processRequest.simps)
    next
      case (Raise s')
      with fr have "length (ss_store s) \<le> length (ss_store s')" by (simp add: keeps_def)
      with "3.IH"(2) [OF _ Raise] True Raise show ?thesis
        by (simp add: processRequest.simps)
    qed
  qed
qed

lemma sendError_table:
  assumes "table_ok s" and "records_ok s"
    and "sendError s response err isFatal = Returned s' \<or> sendError s response err isFatal = Threw s'"
  shows "table_ok s' \<and> records_ok s' \<and> length (ss_store s) \<le> length (ss_store s')"
proof -
  define cm where "cm =
    (if \<not> isFatal then (let error = SftpException err in (exc_code error, exc_message error))
     else (FAILURE, ''Internal server error''))"
  let ?r = "SftpStatus_write response (fst cm) (snd cm)"
  from assms(3) have "s' = s \<or> s' = send s ?r"
    by (auto simp: sendError_def Let_def cm_def split_beta split: if_splits)
  with assms(1,2) send_table [of s ?r] store_grows_aux(1) [of s ?r] show ?thesis by auto
qed

lemma error_then_delete_table:
  assumes "table_ok s" and "records_ok s" and "hr < length (ss_store s)"
    and "(case sendError s response e False of
            Threw s1 \<Rightarrow> Threw s1
          | Returned s1 \<Rightarrow> deleteHandleInfo s1 hr) = a"
    and "a = Returned s' \<or> a = Threw s'"
  shows "table_ok s' \<and> records_ok s'"
proof (cases "sendError s response e False")
  case (Returned s1)
  with assms(1,2) sendError_table [of s response e False s1]
  have i1: "table_ok s1" "records_ok s1" "length (ss_store s) \<le> length (ss_store s1)" by simp_all
  with assms(3) have len: "hr < length (ss_store s1)" by simp
  from table_ok_deleteHandleInfo [OF i1(1) len] obtain s2 where
    d: "deleteHandleInfo s1 hr = Returned s2" and t2: "table_ok s2" by blast
  have "keeps s1 s2" using d keeps_deleteHandleInfo [of s1 hr s2] by simp
  then have "records_ok s2" using i1(2) by (rule records_ok_keeps)
  with Returned assms(4,5) d t2 show ?thesis by auto
next
  case (Threw s1)
  with assms(1,2) sendError_table [of s response e False s1] assms(4,5) show ?thesis by auto
qed

lemma sendHandle_table:
  assumes "table_ok s" and "records_ok s"
  shows "table_ok (sendHandle (update_info hr (\<lambda>i. i\<lparr> hi_handle := v \<rparr>) s) response hr)
    \<and> records_ok (sendHandle (update_info hr (\<lambda>i. i\<lparr> hi_handle := v \<rparr>) s) response hr)"
proof -
  let ?s1 = "update_info hr (\<lambda>i. i\<lparr> hi_handle := v \<rparr>) s"
  have "table_ok ?s1" using assms(1) by (simp add: table_ok_update_info)
  moreover have "records_ok ?s1"
    using assms(2) by (simp add: records_ok_keeps [OF keeps_update_info])
  ultimately show ?thesis unfolding sendHandle_def by (rule send_table)
qed

lemma resume_table:
  assumes t: "table_ok s" and r: "records_ok s"
    and v: "\<forall>hr. callback_record k = Some hr \<longrightarrow> hr < length (ss_store s)"
    and o: "resume s k res = Returned s' \<or> resume s k res = Threw s'"
  shows "table_ok s' \<and> records_ok s'"
proof (cases k)
  case (K_open response hr path modes attrs)
  with v have len: "hr < length (ss_store s)" by simp
  show ?thesis
  proof (cases "res_err res")
    case (Some e)
    with K_open o error_then_delete_table [OF t r len refl, where e = e and s' = s']
    show ?thesis by (simp add: sendIfError_def)
  next
    case None
    have "records_ok (backend (FsClose (res_handle res)) (K_close_retry response hr path modes attrs) s)"
      using r len by (simp add: records_ok_backend)
    with None K_open o sendHandle_table [OF t r] t show ?thesis
      by (auto simp: sendIfError_def split: if_splits)
  qed
next
  case (K_close_retry response hr path modes attrs)
  with v have len: "hr < length (ss_store s)" by simp
  show ?thesis
  proof (cases "res_err res")
    case (Some e)
    with K_close_retry o error_then_delete_table [OF t r len refl, where e = e and s' = s']
    show ?thesis by (simp add: sendIfError_def)
  next
    case None
    have "table_ok (openFile s response hr path modes attrs)
      \<and> records_ok (openFile s response hr path modes attrs)"
      using t r len by (simp add: openFile_def records_ok_backend split: list.splits)
    with None K_close_retry o show ?thesis
      by (auto simp: sendIfError_def)
  qed
next
  case (K_sendSuccess response)
  show ?thesis
  proof (cases "res_err res")
    case (Some e)
    with K_sendSuccess o sendError_table [OF t r, of response e False s'] show ?thesis
      by (simp add: sendSuccess_def sendIfError_def)
  next
    case None
    with K_sendSuccess o send_table [OF t r] show ?thesis
      by (auto simp: sendSuccess_def sendIfError_def)
  qed
next
  case (K_sendAttribs response)
  show ?thesis
  proof (cases "res_err res")
    case (Some e)
    with K_sendAttribs o sendError_table [OF t r, of response e False s'] show ?thesis
      by (simp add: sendAttribs_def sendIfError_def)
  next
    case None
    with K_sendAttribs o send_table [OF t r] show ?thesis
      by (auto simp: sendAttribs_def sendIfError_def)
  qed
next
  case (K_sendPath response)
  show ?thesis
  proof (cases "res_err res")
    case (Some e)
    with K_sendPath o sendError_table [OF t r, of response e False s'] show ?thesis
      by (simp add: sendPath_def sendIfError_def)
  next
    case None
    with K_sendPath o send_table [OF t r] t r show ?thesis
      by (auto simp: sendPath_def sendIfError_def Let_def split: if_splits)
  qed
next
  case (K_read response)
  show ?thesis
  proof (cases "res_err res")
    case (Some e)
    with K_read o sendError_table [OF t r, of response e False s'] show ?thesis
      by (simp add: sendIfError_def)
  next
    case None
    with K_read o send_table [OF t r] t r show ?thesis
      by (auto simp: sendIfError_def sendStatus_def Let_def split: if_splits)
  qed
next
  case (K_opendir response hr)
  with v have len: "hr < length (ss_store s)" by simp
  show ?thesis
  proof (cases "res_err res")
    case (Some e)
    with K_opendir o error_then_delete_table [OF t r len refl, where e = e and s' = s']
    show ?thesis by (simp add: sendIfError_def)
  next
    case None
    with K_opendir o sendHandle_table [OF t r] show ?thesis
      by (auto simp: sendIfError_def)
  qed
next
  case (K_readdir response hr count)
  with v have len: "hr < length (ss_store s)" by simp
  show ?thesis
  proof (cases "res_err res")
    case (Some e)
    with K_readdir o sendError_table [OF t r, of response e False s'] show ?thesis
      by (simp add: sendIfError_def)
  next
    case None
    note n = readdir_next_table [OF t r len, of response count "res_items res"]
    show ?thesis
    proof (cases "readdir_next s response hr count (res_items res)")
      case (Reply s1 r1)
      with n send_table [of s1 r1] None K_readdir o show ?thesis
        by (auto simp: sendIfError_def)
    next
      case (Proceed s1)
      with n None K_readdir o show ?thesis by (auto simp: sendIfError_def)
    next
      case (Raise s1)
      with n None K_readdir o show ?thesis by (auto simp: sendIfError_def)
    qed
  qed
next
  case K_discard
  with t r o show ?thesis by auto
qed

lemma end_session_table:
  assumes "table_ok s" and "records_ok s"
  shows "table_ok (end_session s) \<and> records_ok (end_session s)"
proof -
  have st: "ss_store (end_session s) = ss_store s" "ss_handles (end_session s) = ss_handles s"
    "ss_nextHandle (end_session s) = ss_nextHandle s"
    by (simp_all add: end_session_def Let_def)
  have inf: "info (end_session s) hr = info s hr" for hr
    by (simp add: info_def st)
  have pend: "\<forall>ck \<in> set (ss_pending (end_session s)). ck \<in> set (ss_pending s) \<or> snd ck = K_discard"
    by (auto simp: end_session_def Let_def)
  have "table_ok (end_session s)"
    using assms(1) unfolding table_ok_def by (simp add: st inf)
  moreover have "records_ok (end_session s)"
    using assms(2) pend unfolding records_ok_def by (auto simp: st inf)
  ultimately show ?thesis by simp
qed

lemma step_table:
  assumes "table_ok s" and "records_ok s"
  shows "table_ok (step s e) \<and> records_ok (step s e)"
proof (cases e)
  case (Message request)
  with assms show ?thesis by (simp add: process_table)
next
  case (Completion n res)
  show ?thesis
  proof (cases "n < length (ss_pending s)")
    case False
    with Completion assms show ?thesis by (simp add: complete_def)
  next
    case True
    let ?s1 = "s\<lparr> ss_pending := take n (ss_pending s) @ drop (Suc n) (ss_pending s) \<rparr>"
    let ?k = "snd (ss_pending s ! n)"
    have st: "ss_store ?s1 = ss_store s" and inf: "\<And>hr. info ?s1 hr = info s hr"
      by (simp_all add: info_def)
    have sub: "set (ss_pending ?s1) \<subseteq> set (ss_pending s)"
      by (auto dest: in_set_takeD in_set_dropD)
    have t1: "table_ok ?s1"
      using assms(1) unfolding table_ok_def by (simp add: inf)
    have r1: "records_ok ?s1"
      using assms(2) sub unfolding records_ok_def by (auto simp: inf)
    have "ss_pending s ! n \<in> set (ss_pending s)" using True by simp
    with assms(2) have v: "\<forall>hr. callback_record ?k = Some hr \<longrightarrow> hr < length (ss_store ?s1)"
      unfolding records_ok_def by auto
    have "resume ?s1 ?k res = Returned (step s e) \<or> resume ?s1 ?k res = Threw (step s e)"
      using Completion True by (cases "resume ?s1 ?k res") (simp_all add: complete_def)
    with t1 r1 v show ?thesis by (rule resume_table)
  qed
next
  case ChannelClose
  with assms show ?thesis by (simp add: end_session_table)
qed

text \<open>
  In every run of a session the table is in order: the cursor and the occupied slots
  are within 1 to 512, and every record is a tombstone or sits in the slot of its index.
  So the index of a record is -1 or within 1 to 512, and \<open>deleteHandleInfo\<close> never
  throws "Handle not found".
\<close>

lemma run_table:
  "table_ok s \<Longrightarrow> records_ok s \<Longrightarrow> table_ok (run s es) \<and> records_ok (run s es)"
proof (induction es arbitrary: s)
  case Nil
  then show ?case by simp
next
  case (Cons e es)
  from step_table [OF Cons.prems, of e] Cons.IH [of "step s e"] show ?case by simp
qed

lemma table_in_every_run: "table_ok (run new_session es) \<and> records_ok (run new_session es)"
  by (rule run_table) (simp_all add: table_ok_def records_ok_def new_session_def MAX_HANDLE_COUNT_def)

lemma record_index_in_every_run:
  assumes "hr < length (ss_store (run new_session es))"
  shows "hi_h (info (run new_session es) hr) = - 1
    \<or> (1 \<le> hi_h (info (run new_session es) hr) \<and> hi_h (info (run new_session es) hr) \<le> MAX_HANDLE_COUNT)"
  using table_in_every_run [of es] assms unfolding table_ok_def by blast

end
